theory Spec2Isabelle
  imports Main "HOL-Library.Word"
begin

unbundle bit_operations_syntax

section \<open>CellIndex: the bit-packed H3 index\<close>

text \<open>
  An \<open>H3Index\<close> is a \<open>uint64_t\<close>. \<open>Direction\<close> is a C enum; the code compares it with
  \<open>CENTER_DIGIT\<close> and \<open>INVALID_DIGIT\<close> and uses it as an array index, so it is an \<open>int\<close> here.

  Modelled from the spec: the enum is declared in \<open>coordijk.h\<close>, which is not among the
  sources. The spec lists its values in this order (center, K, J, JK, I, IK, IJ, and the
  invalid sentinel), with 0 for the center and 1 for K; the first row of each table of
  algos.c, which is the row of the center digit, lists the directions in the same order.
\<close>

type_synonym H3Index = "64 word"
type_synonym Direction = int

abbreviation (input) CENTER_DIGIT :: Direction where "CENTER_DIGIT \<equiv> 0"
abbreviation (input) K_AXES_DIGIT :: Direction where "K_AXES_DIGIT \<equiv> 1"
abbreviation (input) J_AXES_DIGIT :: Direction where "J_AXES_DIGIT \<equiv> 2"
abbreviation (input) JK_AXES_DIGIT :: Direction where "JK_AXES_DIGIT \<equiv> 3"
abbreviation (input) I_AXES_DIGIT :: Direction where "I_AXES_DIGIT \<equiv> 4"
abbreviation (input) IK_AXES_DIGIT :: Direction where "IK_AXES_DIGIT \<equiv> 5"
abbreviation (input) IJ_AXES_DIGIT :: Direction where "IJ_AXES_DIGIT \<equiv> 6"
abbreviation (input) INVALID_DIGIT :: Direction where "INVALID_DIGIT \<equiv> 7"

text \<open>
  Modelled from the spec: the header \<open>h3Index.h\<close> with the layout constants and the
  field macros is not among the sources. The spec gives the fields (mode, resolution 0..15,
  base cell 0..121, and fifteen 3-bit digit slots, one per resolution level 1..15, the
  coarsest level in the highest slot); the offsets are those of the H3 index format, which
  the fixture \<open>0x89283080ddbffff\<close> of the benchmark (a resolution 9 cell) follows: mode in
  bits 59..62, resolution in bits 52..55, base cell in bits 45..51, and the digit of level
  \<open>r\<close> in bits \<open>3 * (15 - r)\<close> .. \<open>3 * (15 - r) + 2\<close>. The setters do not mask the value they
  store, as the C macros do not. A resolution level is a \<open>nat\<close>: every caller passes a
  level between 1 and 15. There are 122 base cells, and \<open>INVALID_BASE_CELL\<close> is 127, the
  largest value of the 7-bit field.
\<close>

abbreviation (input) MAX_H3_RES :: int where "MAX_H3_RES \<equiv> 15"
abbreviation (input) H3_PER_DIGIT_OFFSET :: int where "H3_PER_DIGIT_OFFSET \<equiv> 3"
abbreviation (input) NUM_BASE_CELLS :: int where "NUM_BASE_CELLS \<equiv> 122"
abbreviation (input) INVALID_BASE_CELL :: int where "INVALID_BASE_CELL \<equiv> 127"
abbreviation (input) H3_DIGIT_MASK :: H3Index where "H3_DIGIT_MASK \<equiv> 7"

definition H3_GET_MODE :: "H3Index \<Rightarrow> int" where
  "H3_GET_MODE h3 = uint (drop_bit 59 (h3 AND push_bit 59 15))"

definition H3_GET_RESOLUTION :: "H3Index \<Rightarrow> nat" where
  "H3_GET_RESOLUTION h3 = unat (drop_bit 52 (h3 AND push_bit 52 15))"

definition H3_GET_BASE_CELL :: "H3Index \<Rightarrow> int" where
  "H3_GET_BASE_CELL h3 = uint (drop_bit 45 (h3 AND push_bit 45 127))"

definition H3_SET_BASE_CELL :: "H3Index \<Rightarrow> int \<Rightarrow> H3Index" where
  "H3_SET_BASE_CELL h3 bc = (h3 AND NOT (push_bit 45 127)) OR push_bit 45 (word_of_int bc)"

definition H3_GET_INDEX_DIGIT :: "H3Index \<Rightarrow> nat \<Rightarrow> Direction" where
  "H3_GET_INDEX_DIGIT h3 res = uint (drop_bit ((15 - res) * 3) h3 AND H3_DIGIT_MASK)"

definition H3_SET_INDEX_DIGIT :: "H3Index \<Rightarrow> nat \<Rightarrow> Direction \<Rightarrow> H3Index" where
  "H3_SET_INDEX_DIGIT h3 res digit =
     (h3 AND NOT (push_bit ((15 - res) * 3) H3_DIGIT_MASK))
       OR push_bit ((15 - res) * 3) (word_of_int digit)"

text \<open>
  \<open>_zeroIndexDigits\<close> (h3Index.c). The two shift counts are \<open>int\<close> expressions in C; a
  negative count or one of 64 and more is undefined there, and \<open>nat\<close> makes it 0 here: the
  theorems below keep to \<open>1 \<le> start \<le> end \<le> 15\<close>, where both counts are between 0 and 45.
\<close>

definition zeroIndexDigits :: "H3Index \<Rightarrow> int \<Rightarrow> int \<Rightarrow> H3Index" where
  "zeroIndexDigits h start end' =
     (if start > end' then h
      else
        let m0 = (0 :: H3Index);
            m1 = NOT m0;
            m2 = push_bit (nat (H3_PER_DIGIT_OFFSET * (end' - start + 1))) m1;
            m3 = NOT m2;
            m4 = push_bit (nat (H3_PER_DIGIT_OFFSET * (MAX_H3_RES - end'))) m3;
            m5 = NOT m4
        in h AND m5)"

text \<open>\<open>_h3LeadingNonZeroDigit\<close>: the loop over \<open>r = 1 .. H3_GET_RESOLUTION(h)\<close>.\<close>

primrec firstNonZeroDigit :: "H3Index \<Rightarrow> nat list \<Rightarrow> Direction" where
  "firstNonZeroDigit h [] = CENTER_DIGIT"
| "firstNonZeroDigit h (r # rs) =
     (if H3_GET_INDEX_DIGIT h r \<noteq> 0 then H3_GET_INDEX_DIGIT h r else firstNonZeroDigit h rs)"

definition h3LeadingNonZeroDigit :: "H3Index \<Rightarrow> Direction" where
  "h3LeadingNonZeroDigit h = firstNonZeroDigit h [1 ..< Suc (H3_GET_RESOLUTION h)]"

text \<open>\<open>isResolutionClassIII\<close>: \<open>res % 2\<close>, read as a truth value.\<close>

definition isResolutionClassIII :: "nat \<Rightarrow> bool" where
  "isResolutionClassIII res = (res mod 2 \<noteq> 0)"

section \<open>DigitRotation\<close>

text \<open>\<open>_rotate60ccw\<close> and \<open>_rotate60cw\<close> (coordijk.c): the two switch statements.\<close>

definition rotate60ccw :: "Direction \<Rightarrow> Direction" where
  "rotate60ccw digit =
     (if digit = K_AXES_DIGIT then IK_AXES_DIGIT
      else if digit = IK_AXES_DIGIT then I_AXES_DIGIT
      else if digit = I_AXES_DIGIT then IJ_AXES_DIGIT
      else if digit = IJ_AXES_DIGIT then J_AXES_DIGIT
      else if digit = J_AXES_DIGIT then JK_AXES_DIGIT
      else if digit = JK_AXES_DIGIT then K_AXES_DIGIT
      else digit)"

definition rotate60cw :: "Direction \<Rightarrow> Direction" where
  "rotate60cw digit =
     (if digit = K_AXES_DIGIT then JK_AXES_DIGIT
      else if digit = JK_AXES_DIGIT then J_AXES_DIGIT
      else if digit = J_AXES_DIGIT then IJ_AXES_DIGIT
      else if digit = IJ_AXES_DIGIT then I_AXES_DIGIT
      else if digit = I_AXES_DIGIT then IK_AXES_DIGIT
      else if digit = IK_AXES_DIGIT then K_AXES_DIGIT
      else digit)"

text \<open>
  \<open>_h3Rotate60ccw\<close> and \<open>_h3Rotate60cw\<close> (h3Index.c): the resolution is read once, then
  the digits of the levels 1 .. res are rewritten one after the other.
\<close>

definition h3Rotate60ccw :: "H3Index \<Rightarrow> H3Index" where
  "h3Rotate60ccw h =
     fold (\<lambda>r h. H3_SET_INDEX_DIGIT h r (rotate60ccw (H3_GET_INDEX_DIGIT h r)))
       [1 ..< Suc (H3_GET_RESOLUTION h)] h"

definition h3Rotate60cw :: "H3Index \<Rightarrow> H3Index" where
  "h3Rotate60cw h =
     fold (\<lambda>r h. H3_SET_INDEX_DIGIT h r (rotate60cw (H3_GET_INDEX_DIGIT h r)))
       [1 ..< Suc (H3_GET_RESOLUTION h)] h"

text \<open>
  \<open>_h3RotatePent60ccw\<close>: the loop state is the index and the flag
  \<open>foundFirstNonZeroDigit\<close>; at the first non-zero digit the whole index is rotated once
  more when its leading digit has become K.
\<close>

definition rotatePentStep :: "nat \<Rightarrow> H3Index \<times> bool \<Rightarrow> H3Index \<times> bool" where
  "rotatePentStep r s =
     (let h = H3_SET_INDEX_DIGIT (fst s) r (rotate60ccw (H3_GET_INDEX_DIGIT (fst s) r));
          foundFirstNonZeroDigit = snd s
      in if \<not> foundFirstNonZeroDigit \<and> H3_GET_INDEX_DIGIT h r \<noteq> 0
         then (if h3LeadingNonZeroDigit h = K_AXES_DIGIT then h3Rotate60ccw h else h, True)
         else (h, foundFirstNonZeroDigit))"

definition h3RotatePent60ccw :: "H3Index \<Rightarrow> H3Index" where
  "h3RotatePent60ccw h =
     fst (fold rotatePentStep [1 ..< Suc (H3_GET_RESOLUTION h)] (h, False))"

section \<open>GridStepTables\<close>

text \<open>
  The four tables of algos.c, row by row: current digit, then direction. They are read as
  \<open>NEW_DIGIT_II[oldDigit][dir]\<close>; in the walk below both indices are between 0 and 6.
\<close>

definition NEW_DIGIT_II :: "Direction list list" where
  "NEW_DIGIT_II =
    [[CENTER_DIGIT, K_AXES_DIGIT, J_AXES_DIGIT, JK_AXES_DIGIT, I_AXES_DIGIT,
      IK_AXES_DIGIT, IJ_AXES_DIGIT],
     [K_AXES_DIGIT, I_AXES_DIGIT, JK_AXES_DIGIT, IJ_AXES_DIGIT, IK_AXES_DIGIT,
      J_AXES_DIGIT, CENTER_DIGIT],
     [J_AXES_DIGIT, JK_AXES_DIGIT, K_AXES_DIGIT, I_AXES_DIGIT, IJ_AXES_DIGIT,
      CENTER_DIGIT, IK_AXES_DIGIT],
     [JK_AXES_DIGIT, IJ_AXES_DIGIT, I_AXES_DIGIT, IK_AXES_DIGIT, CENTER_DIGIT,
      K_AXES_DIGIT, J_AXES_DIGIT],
     [I_AXES_DIGIT, IK_AXES_DIGIT, IJ_AXES_DIGIT, CENTER_DIGIT, J_AXES_DIGIT,
      JK_AXES_DIGIT, K_AXES_DIGIT],
     [IK_AXES_DIGIT, J_AXES_DIGIT, CENTER_DIGIT, K_AXES_DIGIT, JK_AXES_DIGIT,
      IJ_AXES_DIGIT, I_AXES_DIGIT],
     [IJ_AXES_DIGIT, CENTER_DIGIT, IK_AXES_DIGIT, J_AXES_DIGIT, K_AXES_DIGIT,
      I_AXES_DIGIT, JK_AXES_DIGIT]]"

definition NEW_ADJUSTMENT_II :: "Direction list list" where
  "NEW_ADJUSTMENT_II =
    [[CENTER_DIGIT, CENTER_DIGIT, CENTER_DIGIT, CENTER_DIGIT, CENTER_DIGIT,
      CENTER_DIGIT, CENTER_DIGIT],
     [CENTER_DIGIT, K_AXES_DIGIT, CENTER_DIGIT, K_AXES_DIGIT, CENTER_DIGIT,
      IK_AXES_DIGIT, CENTER_DIGIT],
     [CENTER_DIGIT, CENTER_DIGIT, J_AXES_DIGIT, JK_AXES_DIGIT, CENTER_DIGIT,
      CENTER_DIGIT, J_AXES_DIGIT],
     [CENTER_DIGIT, K_AXES_DIGIT, JK_AXES_DIGIT, JK_AXES_DIGIT, CENTER_DIGIT,
      CENTER_DIGIT, CENTER_DIGIT],
     [CENTER_DIGIT, CENTER_DIGIT, CENTER_DIGIT, CENTER_DIGIT, I_AXES_DIGIT,
      I_AXES_DIGIT, IJ_AXES_DIGIT],
     [CENTER_DIGIT, IK_AXES_DIGIT, CENTER_DIGIT, CENTER_DIGIT, I_AXES_DIGIT,
      IK_AXES_DIGIT, CENTER_DIGIT],
     [CENTER_DIGIT, CENTER_DIGIT, J_AXES_DIGIT, CENTER_DIGIT, IJ_AXES_DIGIT,
      CENTER_DIGIT, IJ_AXES_DIGIT]]"

definition NEW_DIGIT_III :: "Direction list list" where
  "NEW_DIGIT_III =
    [[CENTER_DIGIT, K_AXES_DIGIT, J_AXES_DIGIT, JK_AXES_DIGIT, I_AXES_DIGIT,
      IK_AXES_DIGIT, IJ_AXES_DIGIT],
     [K_AXES_DIGIT, J_AXES_DIGIT, JK_AXES_DIGIT, I_AXES_DIGIT, IK_AXES_DIGIT,
      IJ_AXES_DIGIT, CENTER_DIGIT],
     [J_AXES_DIGIT, JK_AXES_DIGIT, I_AXES_DIGIT, IK_AXES_DIGIT, IJ_AXES_DIGIT,
      CENTER_DIGIT, K_AXES_DIGIT],
     [JK_AXES_DIGIT, I_AXES_DIGIT, IK_AXES_DIGIT, IJ_AXES_DIGIT, CENTER_DIGIT,
      K_AXES_DIGIT, J_AXES_DIGIT],
     [I_AXES_DIGIT, IK_AXES_DIGIT, IJ_AXES_DIGIT, CENTER_DIGIT, K_AXES_DIGIT,
      J_AXES_DIGIT, JK_AXES_DIGIT],
     [IK_AXES_DIGIT, IJ_AXES_DIGIT, CENTER_DIGIT, K_AXES_DIGIT, J_AXES_DIGIT,
      JK_AXES_DIGIT, I_AXES_DIGIT],
     [IJ_AXES_DIGIT, CENTER_DIGIT, K_AXES_DIGIT, J_AXES_DIGIT, JK_AXES_DIGIT,
      I_AXES_DIGIT, IK_AXES_DIGIT]]"

definition NEW_ADJUSTMENT_III :: "Direction list list" where
  "NEW_ADJUSTMENT_III =
    [[CENTER_DIGIT, CENTER_DIGIT, CENTER_DIGIT, CENTER_DIGIT, CENTER_DIGIT,
      CENTER_DIGIT, CENTER_DIGIT],
     [CENTER_DIGIT, K_AXES_DIGIT, CENTER_DIGIT, JK_AXES_DIGIT, CENTER_DIGIT,
      K_AXES_DIGIT, CENTER_DIGIT],
     [CENTER_DIGIT, CENTER_DIGIT, J_AXES_DIGIT, J_AXES_DIGIT, CENTER_DIGIT,
      CENTER_DIGIT, IJ_AXES_DIGIT],
     [CENTER_DIGIT, JK_AXES_DIGIT, J_AXES_DIGIT, JK_AXES_DIGIT, CENTER_DIGIT,
      CENTER_DIGIT, CENTER_DIGIT],
     [CENTER_DIGIT, CENTER_DIGIT, CENTER_DIGIT, CENTER_DIGIT, I_AXES_DIGIT,
      IK_AXES_DIGIT, I_AXES_DIGIT],
     [CENTER_DIGIT, K_AXES_DIGIT, CENTER_DIGIT, CENTER_DIGIT, IK_AXES_DIGIT,
      IK_AXES_DIGIT, CENTER_DIGIT],
     [CENTER_DIGIT, CENTER_DIGIT, IJ_AXES_DIGIT, CENTER_DIGIT, I_AXES_DIGIT,
      CENTER_DIGIT, IJ_AXES_DIGIT]]"

section \<open>NeighborWalk\<close>

text \<open>
  The error codes of \<open>H3Error\<close> that the sources return; \<open>E_SUCCESS\<close> is the \<open>Inr\<close> (or
  \<open>None\<close>) side of a result.
\<close>

datatype H3Error = E_FAILED | E_DOMAIN | E_LATLNG_DOMAIN | E_RES_DOMAIN | E_CELL_INVALID | E_PENTAGON

text \<open>
  The base-cell data of \<open>baseCells.h\<close> is not among the sources, so the neighbor walk takes
  it as a parameter: the two adjacency tables \<open>baseCellNeighbors[bc][dir]\<close> and
  \<open>baseCellNeighbor60CCWRots[bc][dir]\<close>, the predicates \<open>_isBaseCellPentagon\<close>,
  \<open>_isBaseCellPolarPentagon\<close> and \<open>_baseCellIsCwOffset\<close>, and the home face
  \<open>baseCellData[bc].homeFijk.face\<close>.
\<close>

record BaseCells =
  baseCellNeighbors :: "int \<Rightarrow> Direction \<Rightarrow> int"
  baseCellNeighbor60CCWRots :: "int \<Rightarrow> Direction \<Rightarrow> int"
  isBaseCellPentagon :: "int \<Rightarrow> bool"
  isBaseCellPolarPentagon :: "int \<Rightarrow> bool"
  baseCellIsCwOffset :: "int \<Rightarrow> int \<Rightarrow> bool"
  homeFace :: "int \<Rightarrow> int"

text \<open>The remainder of C's \<open>%\<close> on \<open>int\<close>: the quotient is truncated towards zero.\<close>

definition c_rem :: "int \<Rightarrow> int \<Rightarrow> int" where
  "c_rem a b = sgn a * (\<bar>a\<bar> mod \<bar>b\<bar>)"

text \<open>
  The \<open>while (true)\<close> loop of \<open>h3NeighborRotations\<close> (lines 150 to 193). The third argument
  is \<open>r + 1\<close>, the level of the digit that the iteration rewrites: 0 is the branch
  \<open>r == -1\<close>, which moves to the neighboring base cell. The result is the index, the rotation
  count \<open>*rotations\<close> and \<open>newRotations\<close> at the \<open>break\<close>.
\<close>

fun neighborLoop ::
  "BaseCells \<Rightarrow> int \<Rightarrow> nat \<Rightarrow> H3Index \<Rightarrow> Direction \<Rightarrow> int \<Rightarrow> H3Error + (H3Index \<times> int \<times> int)"
where
  "neighborLoop T oldBaseCell 0 current dir rotations =
     (let current1 = H3_SET_BASE_CELL current (baseCellNeighbors T oldBaseCell dir);
          newRotations = baseCellNeighbor60CCWRots T oldBaseCell dir
      in if H3_GET_BASE_CELL current1 = INVALID_BASE_CELL
         then
           let current2 = H3_SET_BASE_CELL current1 (baseCellNeighbors T oldBaseCell IK_AXES_DIGIT);
               newRotations2 = baseCellNeighbor60CCWRots T oldBaseCell IK_AXES_DIGIT
           in Inr (h3Rotate60ccw current2, rotations + 1, newRotations2)
         else Inr (current1, rotations, newRotations))"
| "neighborLoop T oldBaseCell (Suc r) current dir rotations =
     (let oldDigit = H3_GET_INDEX_DIGIT current (Suc r)
      in if oldDigit = INVALID_DIGIT then Inl E_CELL_INVALID
         else
           let current1 =
                 (if isResolutionClassIII (Suc r)
                  then H3_SET_INDEX_DIGIT current (Suc r) (NEW_DIGIT_II ! nat oldDigit ! nat dir)
                  else H3_SET_INDEX_DIGIT current (Suc r) (NEW_DIGIT_III ! nat oldDigit ! nat dir));
               nextDir =
                 (if isResolutionClassIII (Suc r)
                  then NEW_ADJUSTMENT_II ! nat oldDigit ! nat dir
                  else NEW_ADJUSTMENT_III ! nat oldDigit ! nat dir)
           in if nextDir \<noteq> CENTER_DIGIT
              then neighborLoop T oldBaseCell r current1 nextDir rotations
              else Inr (current1, rotations, 0))"


text \<open>
  The two table reads of an iteration that rewrites the digit of level \<open>lvl\<close>, named for
  the proofs: the new digit and the carry (\<open>nextDir\<close>), by the same test on the level as in
  \<open>neighborLoop\<close>.
\<close>

definition newDigit :: "nat \<Rightarrow> Direction \<Rightarrow> Direction \<Rightarrow> Direction" where
  "newDigit lvl oldDigit dir =
     (if isResolutionClassIII lvl then NEW_DIGIT_II ! nat oldDigit ! nat dir
      else NEW_DIGIT_III ! nat oldDigit ! nat dir)"


text \<open>
  Lines 195 to 267: the corrections when the new base cell is a pentagon, and the plain
  rotation otherwise. The result is the index and \<open>*rotations\<close>; the two error returns
  leave \<open>*rotations\<close> as it was on entry.
\<close>

definition pentagonAdjust ::
  "BaseCells \<Rightarrow> int \<Rightarrow> Direction \<Rightarrow> H3Index \<Rightarrow> int \<Rightarrow> int \<Rightarrow> H3Error + (H3Index \<times> int)"
where
  "pentagonAdjust T oldBaseCell oldLeadingDigit current newRotations rotations =
     (let newBaseCell = H3_GET_BASE_CELL current
      in if isBaseCellPentagon T newBaseCell
         then
           (case
              (if h3LeadingNonZeroDigit current = K_AXES_DIGIT
               then
                 (if oldBaseCell \<noteq> newBaseCell
                  then
                    Inr (if baseCellIsCwOffset T newBaseCell (homeFace T oldBaseCell)
                         then h3Rotate60cw current else h3Rotate60ccw current,
                         rotations, True)
                  else if oldLeadingDigit = CENTER_DIGIT then Inl E_PENTAGON
                  else if oldLeadingDigit = JK_AXES_DIGIT
                  then Inr (h3Rotate60ccw current, rotations + 1, False)
                  else if oldLeadingDigit = IK_AXES_DIGIT
                  then Inr (h3Rotate60cw current, rotations + 5, False)
                  else Inl E_FAILED)
               else Inr (current, rotations, False))
            of
              Inl e \<Rightarrow> Inl e
            | Inr (current1, rotations1, alreadyAdjustedKSubsequence) \<Rightarrow>
                let current2 = (h3RotatePent60ccw ^^ nat newRotations) current1
                in if oldBaseCell \<noteq> newBaseCell
                   then
                     (if isBaseCellPolarPentagon T newBaseCell
                      then
                        (if oldBaseCell \<noteq> 118 \<and> oldBaseCell \<noteq> 8 \<and>
                            h3LeadingNonZeroDigit current2 \<noteq> JK_AXES_DIGIT
                         then Inr (current2, rotations1 + 1)
                         else Inr (current2, rotations1))
                      else if h3LeadingNonZeroDigit current2 = IK_AXES_DIGIT \<and>
                              \<not> alreadyAdjustedKSubsequence
                      then Inr (current2, rotations1 + 1)
                      else Inr (current2, rotations1))
                   else Inr (current2, rotations1))
         else Inr ((h3Rotate60ccw ^^ nat newRotations) current, rotations))"

text \<open>
  \<open>h3NeighborRotations\<close>. The result pairs the status (the error, or the index written to
  \<open>*out\<close> on success) with the value left in \<open>*rotations\<close>.
\<close>

definition h3NeighborRotations ::
  "BaseCells \<Rightarrow> H3Index \<Rightarrow> Direction \<Rightarrow> int \<Rightarrow> (H3Error + H3Index) \<times> int"
where
  "h3NeighborRotations T origin dir rotations =
     (if dir < CENTER_DIGIT \<or> dir \<ge> INVALID_DIGIT then (Inl E_FAILED, rotations)
      else
        let rotations1 = c_rem rotations 6;
            dir1 = (rotate60ccw ^^ nat rotations1) dir;
            oldBaseCell = H3_GET_BASE_CELL origin
        in if oldBaseCell < 0 \<or> oldBaseCell \<ge> NUM_BASE_CELLS then (Inl E_CELL_INVALID, rotations1)
           else
             let oldLeadingDigit = h3LeadingNonZeroDigit origin
             in case neighborLoop T oldBaseCell (H3_GET_RESOLUTION origin) origin dir1 rotations1 of
                  Inl e \<Rightarrow> (Inl e, rotations1)
                | Inr (current, rotations2, newRotations) \<Rightarrow>
                    (case pentagonAdjust T oldBaseCell oldLeadingDigit current newRotations rotations2 of
                       Inl e \<Rightarrow> (Inl e, rotations2)
                     | Inr (out, rotations3) \<Rightarrow> (Inr out, c_rem (rotations3 + newRotations) 6)))"

text \<open>
  An instance of the base-cell data for evaluating the walk on concrete cells. Its pentagon
  flags are those of the H3 grid (the twelve pentagon base cells, 4 and 117 the polar ones);
  its adjacency entries are placeholders (every neighbor is \<open>INVALID_BASE_CELL\<close>). The examples
  below are steps that are absorbed inside the base cell, which never read these entries,
  and one step from a resolution 0 cell, of which only the status is used.
\<close>

definition sampleBaseCells :: BaseCells where
  "sampleBaseCells =
     \<lparr> baseCellNeighbors = (\<lambda>bc dir. if dir = CENTER_DIGIT then bc else INVALID_BASE_CELL),
       baseCellNeighbor60CCWRots = (\<lambda>bc dir. 0),
       isBaseCellPentagon = (\<lambda>bc. bc \<in> set [4, 14, 24, 38, 49, 58, 63, 72, 83, 97, 107, 117]),
       isBaseCellPolarPentagon = (\<lambda>bc. bc = 4 \<or> bc = 117),
       baseCellIsCwOffset = (\<lambda>bc face. False),
       homeFace = (\<lambda>bc. 0) \<rparr>"

section \<open>LineTrace: the found hash set of \<open>_getEdgeHexagons\<close>\<close>

text \<open>
  \<open>_getEdgeHexagons\<close> calls \<open>lineHexEstimate\<close> and \<open>latLngToCell\<close> and interpolates between
  two vertices in floating point. None of this bears on how a cell is stored, so the three
  are parameters here, over any type \<open>'p\<close> of points: \<open>interpolate origin destination n j\<close>
  stands for the two expressions of lines 308 to 313.
\<close>

record 'p GeoFuns =
  lineHexEstimate :: "'p \<Rightarrow> 'p \<Rightarrow> int \<Rightarrow> H3Error + int"
  latLngToCell :: "'p \<Rightarrow> int \<Rightarrow> H3Error + H3Index"
  interpolate :: "'p \<Rightarrow> 'p \<Rightarrow> int \<Rightarrow> int \<Rightarrow> 'p"

text \<open>
  The two memory blocks and the counter that the function updates through its pointers. A
  block is a function from offsets to cells: the bounds of the blocks are the caller's
  business (\<open>numHexagons\<close> cells each), and the function reads and writes \<open>found\<close> only at
  offsets \<open>0 .. numHexagons - 1\<close> when \<open>numHexagons\<close> is positive.
\<close>

record EdgeBuffers =
  found :: "int \<Rightarrow> H3Index"
  search :: "int \<Rightarrow> H3Index"
  numSearchHexes :: int

text \<open>
  \<open>pointHex % numHexagons\<close> is computed in \<open>uint64_t\<close> (the \<open>int64_t\<close> operand is converted)
  and cast back to \<open>int64_t\<close>.
\<close>

definition hashLoc :: "H3Index \<Rightarrow> int \<Rightarrow> int" where
  "hashLoc pointHex numHexagons = sint (pointHex mod (word_of_int numHexagons :: 64 word))"

text \<open>
  The probing loop of lines 323 to 333: \<open>Inl E_FAILED\<close> is the \<open>return\<close> inside it,
  \<open>Inr loc\<close> the offset at which it stops (through the \<open>break\<close> or the loop condition).
\<close>

function probe :: "(int \<Rightarrow> H3Index) \<Rightarrow> int \<Rightarrow> H3Index \<Rightarrow> int \<Rightarrow> int \<Rightarrow> H3Error + int" where
  "probe fnd numHexagons pointHex loc loopCount =
     (if fnd loc \<noteq> 0
      then
        (if loopCount > numHexagons then Inl E_FAILED
         else if fnd loc = pointHex then Inr loc
         else probe fnd numHexagons pointHex (c_rem (loc + 1) numHexagons) (loopCount + 1))
      else Inr loc)"
  by pat_completeness auto
termination
  by (relation "measure (\<lambda>(fnd, numHexagons, pointHex, loc, loopCount). nat (numHexagons + 1 - loopCount))")
    auto

text \<open>Lines 321 to 340 for one indexed point: probe, then skip or store and append.\<close>

definition storeHex :: "int \<Rightarrow> H3Index \<Rightarrow> EdgeBuffers \<Rightarrow> H3Error + EdgeBuffers" where
  "storeHex numHexagons pointHex b =
     (case probe (found b) numHexagons pointHex (hashLoc pointHex numHexagons) 0 of
        Inl e \<Rightarrow> Inl e
      | Inr loc \<Rightarrow>
          if found b loc = pointHex then Inr b
          else Inr (b\<lparr> found := (found b)(loc := pointHex),
                       search := (search b)(numSearchHexes b := pointHex),
                       numSearchHexes := numSearchHexes b + 1 \<rparr>))"

text \<open>
  The inner loop over \<open>j\<close> and the outer loop over the vertices. The status is \<open>None\<close> for
  \<open>E_SUCCESS\<close>; on an error the buffers are returned as the loops left them.
\<close>

primrec sampleLoop ::
  "'p GeoFuns \<Rightarrow> int \<Rightarrow> int \<Rightarrow> 'p \<Rightarrow> 'p \<Rightarrow> int \<Rightarrow> int list \<Rightarrow> EdgeBuffers
     \<Rightarrow> H3Error option \<times> EdgeBuffers"
where
  "sampleLoop G numHexagons res origin destination numHexesEstimate [] b = (None, b)"
| "sampleLoop G numHexagons res origin destination numHexesEstimate (j # js) b =
     (case latLngToCell G (interpolate G origin destination numHexesEstimate j) res of
        Inl e \<Rightarrow> (Some e, b)
      | Inr pointHex \<Rightarrow>
          (case storeHex numHexagons pointHex b of
             Inl e \<Rightarrow> (Some e, b)
           | Inr b1 \<Rightarrow> sampleLoop G numHexagons res origin destination numHexesEstimate js b1))"

primrec edgeLoop ::
  "'p GeoFuns \<Rightarrow> 'p list \<Rightarrow> int \<Rightarrow> int \<Rightarrow> nat list \<Rightarrow> EdgeBuffers \<Rightarrow> H3Error option \<times> EdgeBuffers"
where
  "edgeLoop G verts numHexagons res [] b = (None, b)"
| "edgeLoop G verts numHexagons res (i # is) b =
     (let origin = verts ! i;
          destination = (if i = length verts - 1 then verts ! 0 else verts ! (i + 1))
      in case lineHexEstimate G origin destination res of
           Inl estimateErr \<Rightarrow> (Some estimateErr, b)
         | Inr numHexesEstimate \<Rightarrow>
             (case sampleLoop G numHexagons res origin destination numHexesEstimate
                     [0 .. numHexesEstimate - 1] b of
                (Some e, b1) \<Rightarrow> (Some e, b1)
              | (None, b1) \<Rightarrow> edgeLoop G verts numHexagons res is b1))"

definition getEdgeHexagons ::
  "'p GeoFuns \<Rightarrow> 'p list \<Rightarrow> int \<Rightarrow> int \<Rightarrow> EdgeBuffers \<Rightarrow> H3Error option \<times> EdgeBuffers"
where
  "getEdgeHexagons G verts numHexagons res b =
     edgeLoop G verts numHexagons res [0 ..< length verts] b"

text \<open>
  What the probing loop can see: a cell is present in a block when it is stored at some
  distance from its hash offset and no slot before it on the way is empty.
\<close>

definition probeSlot :: "int \<Rightarrow> H3Index \<Rightarrow> nat \<Rightarrow> int" where
  "probeSlot numHexagons x k = (hashLoc x numHexagons + int k) mod numHexagons"

definition present :: "(int \<Rightarrow> H3Index) \<Rightarrow> int \<Rightarrow> H3Index \<Rightarrow> bool" where
  "present fnd numHexagons x \<longleftrightarrow>
     x \<noteq> 0 \<and> (\<exists>k. fnd (probeSlot numHexagons x k) = x \<and>
                 (\<forall>j<k. fnd (probeSlot numHexagons x j) \<noteq> 0))"

text \<open>
  The cells that a call appends to the search block: those at the offsets from the old to
  the new value of \<open>numSearchHexes\<close>, read after the call.
\<close>

definition appended :: "EdgeBuffers \<Rightarrow> EdgeBuffers \<Rightarrow> H3Index list" where
  "appended b b' = map (search b') [numSearchHexes b .. numSearchHexes b' - 1]"

text \<open>
  \<open>traced n b b'\<close> collects what holds between the buffers before and after a successful
  run of the loops: the counter does not decrease, the search block is unchanged below the
  old counter, the appended cells are pairwise distinct and not the null index, none of them
  was present before, and every cell present before or appended is present afterwards.
\<close>

definition traced :: "int \<Rightarrow> EdgeBuffers \<Rightarrow> EdgeBuffers \<Rightarrow> bool" where
  "traced n b b' \<longleftrightarrow>
     numSearchHexes b \<le> numSearchHexes b' \<and>
     (\<forall>i. i < numSearchHexes b \<longrightarrow> search b' i = search b i) \<and>
     distinct (appended b b') \<and>
     0 \<notin> set (appended b b') \<and>
     (\<forall>x\<in>set (appended b b'). \<not> present (found b) n x) \<and>
     (\<forall>x. present (found b) n x \<or> x \<in> set (appended b b') \<longrightarrow> present (found b') n x)"

text \<open>
  The cells that a run indexes (lines 296 to 319): for every vertex \<open>i\<close> of the loop and every
  \<open>j\<close> below the estimate of the edge that starts there, the cell that \<open>latLngToCell\<close> gives
  for the interpolated point, in the order of the two loops. A call that fails contributes
  no cell; on a successful run no call fails.
\<close>

definition edgeCells :: "'p GeoFuns \<Rightarrow> int \<Rightarrow> 'p \<Rightarrow> 'p \<Rightarrow> int \<Rightarrow> int list \<Rightarrow> H3Index list" where
  "edgeCells G res origin destination numHexesEstimate js =
     concat (map (\<lambda>j. case latLngToCell G (interpolate G origin destination numHexesEstimate j) res of
                        Inl e \<Rightarrow> [] | Inr pointHex \<Rightarrow> [pointHex]) js)"

definition sampledCells :: "'p GeoFuns \<Rightarrow> 'p list \<Rightarrow> int \<Rightarrow> nat list \<Rightarrow> H3Index list" where
  "sampledCells G verts res is =
     concat (map (\<lambda>i. let origin = verts ! i;
                          destination = (if i = length verts - 1 then verts ! 0 else verts ! (i + 1))
                      in case lineHexEstimate G origin destination res of
                           Inl e \<Rightarrow> []
                         | Inr numHexesEstimate \<Rightarrow>
                             edgeCells G res origin destination numHexesEstimate
                               [0 .. numHexesEstimate - 1]) is)"

text \<open>
  The found block is a hash set when every cell stored at an offset \<open>0 .. numHexagons - 1\<close>
  is one that the probing loop can see. A zeroed block, which is what the caller passes, is
  one.
\<close>

definition hashSet :: "int \<Rightarrow> (int \<Rightarrow> H3Index) \<Rightarrow> bool" where
  "hashSet n fnd \<longleftrightarrow> (\<forall>loc. 0 \<le> loc \<and> loc < n \<and> fnd loc \<noteq> 0 \<longrightarrow> present fnd n (fnd loc))"

text \<open>
  \<open>written n b b'\<close> collects what holds of the slots of the found block: a slot that has
  changed was empty and now holds an appended cell, the slots that have changed are as many
  as the counter has grown, and a hash set stays one in which nothing but the appended cells
  has become present. \<open>covers n xs b b'\<close>: every appended cell is among the indexed cells
  \<open>xs\<close>, and every indexed cell but the null index is present afterwards.
\<close>

definition written :: "int \<Rightarrow> EdgeBuffers \<Rightarrow> EdgeBuffers \<Rightarrow> bool" where
  "written n b b' \<longleftrightarrow>
     (\<forall>loc. found b' loc \<noteq> found b loc \<longrightarrow> found b loc = 0 \<and> found b' loc \<in> set (appended b b')) \<and>
     finite {loc. found b' loc \<noteq> found b loc} \<and>
     int (card {loc. found b' loc \<noteq> found b loc}) = numSearchHexes b' - numSearchHexes b \<and>
     (hashSet n (found b) \<longrightarrow>
        hashSet n (found b') \<and>
        (\<forall>x. present (found b') n x \<longrightarrow> present (found b) n x \<or> x \<in> set (appended b b')))"

definition covers :: "int \<Rightarrow> H3Index list \<Rightarrow> EdgeBuffers \<Rightarrow> EdgeBuffers \<Rightarrow> bool" where
  "covers n xs b b' \<longleftrightarrow>
     set (appended b b') \<subseteq> set xs \<and> (\<forall>x\<in>set xs. x \<noteq> 0 \<longrightarrow> present (found b') n x)"

text \<open>
  An instance for the examples: points are integers, every edge is sampled three times
  from its origin onwards, and a point is indexed to the cell 1 or 3 by its parity; the
  blocks start out zeroed.
\<close>

definition sampleGeoFuns :: "int GeoFuns" where
  "sampleGeoFuns =
     \<lparr> lineHexEstimate = (\<lambda>origin destination res. Inr 3),
       latLngToCell = (\<lambda>p res. Inr (if p mod 2 = 0 then 1 else 3)),
       interpolate = (\<lambda>origin destination n j. origin + j) \<rparr>"

definition zeroedBuffers :: EdgeBuffers where
  "zeroedBuffers = \<lparr> found = (\<lambda>loc. 0), search = (\<lambda>i. 0), numSearchHexes = 0 \<rparr>"

section \<open>LinkedGeo\<close>

text \<open>
  The linked structures live in a heap: a pointer is an address or \<open>None\<close> for \<open>NULL\<close>, and
  the heap maps the addresses of the allocated nodes to their fields (\<open>first\<close>, \<open>last\<close>,
  \<open>next\<close>, renamed per structure). Only the fields that the counters follow are kept for the
  coordinates.
\<close>

type_synonym addr = nat

record LinkedLatLng =
  coord_next :: "addr option"

record LinkedGeoLoop =
  loop_first :: "addr option"
  loop_last :: "addr option"
  loop_next :: "addr option"

record LinkedGeoPolygon =
  polygon_first :: "addr option"
  polygon_last :: "addr option"
  polygon_next :: "addr option"

record GeoHeap =
  coords :: "addr \<rightharpoonup> LinkedLatLng"
  loops :: "addr \<rightharpoonup> LinkedGeoLoop"
  polygons :: "addr \<rightharpoonup> LinkedGeoPolygon"

text \<open>
  The \<open>while (loop != NULL)\<close> loop of \<open>countLinkedLoops\<close>. It does not return on a cyclic
  chain, and following a pointer to no allocated node is undefined in C: both are \<open>None\<close>.
  The counter is a C \<open>int\<close>; chains of \<open>2^31\<close> nodes and more are out of reach.
\<close>

partial_function (option) countLoopsFrom :: "GeoHeap \<Rightarrow> addr option \<Rightarrow> int \<Rightarrow> int option" where
  "countLoopsFrom H loop count =
     (case loop of
        None \<Rightarrow> Some count
      | Some a \<Rightarrow>
          (case loops H a of
             None \<Rightarrow> None
           | Some node \<Rightarrow> countLoopsFrom H (loop_next node) (count + 1)))"

definition countLinkedLoops :: "GeoHeap \<Rightarrow> addr \<Rightarrow> int option" where
  "countLinkedLoops H polygon =
     (case polygons H polygon of
        None \<Rightarrow> None
      | Some p \<Rightarrow> countLoopsFrom H (polygon_first p) 0)"

text \<open>
  \<open>loopChain H p as\<close>: the chain that starts at the pointer \<open>p\<close> runs through exactly the
  nodes at the addresses \<open>as\<close>, in this order, and ends with \<open>NULL\<close>.
\<close>

fun loopChain :: "GeoHeap \<Rightarrow> addr option \<Rightarrow> addr list \<Rightarrow> bool" where
  "loopChain H p [] = (p = None)"
| "loopChain H p (a # as) =
     (p = Some a \<and> (case loops H a of None \<Rightarrow> False | Some node \<Rightarrow> loopChain H (loop_next node) as))"

text \<open>
  A heap for the examples: polygon 1 has the loops at 10, 11 and 12 chained in this order,
  polygon 2 has no loop.
\<close>

definition threeLoopHeap :: GeoHeap where
  "threeLoopHeap =
     \<lparr> coords = Map.empty,
       loops = [10 \<mapsto> \<lparr> loop_first = None, loop_last = None, loop_next = Some 11 \<rparr>,
                11 \<mapsto> \<lparr> loop_first = None, loop_last = None, loop_next = Some 12 \<rparr>,
                12 \<mapsto> \<lparr> loop_first = None, loop_last = None, loop_next = None \<rparr>],
       polygons = [1 \<mapsto> \<lparr> polygon_first = Some 10, polygon_last = Some 12, polygon_next = None \<rparr>,
                   2 \<mapsto> \<lparr> polygon_first = None, polygon_last = None, polygon_next = None \<rparr>] \<rparr>"

section \<open>Bit-level facts about the index fields\<close>

lemma w7: "(7::64 word) = mask 3" by (simp add: mask_eq_exp_minus_1)
lemma w15: "(15::64 word) = mask 4" by (simp add: mask_eq_exp_minus_1)
lemma w127: "(127::64 word) = mask 7" by (simp add: mask_eq_exp_minus_1)

lemma bit_digit_word:
  "bit (drop_bit ((15 - r) * 3) h AND 7 :: 64 word) k \<longleftrightarrow> k < 3 \<and> bit h ((15 - r) * 3 + k)"
  by (auto simp: w7 bit_simps)

lemma digit_word_less: "(drop_bit p h AND 7 :: 64 word) < 8"
proof -
  have "drop_bit p h AND 7 \<le> (7 :: 64 word)" by (rule word_and_le1)
  then show ?thesis by (simp add: word_le_def word_less_def)
qed

lemma H3_GET_INDEX_DIGIT_range: "0 \<le> H3_GET_INDEX_DIGIT h r \<and> H3_GET_INDEX_DIGIT h r < 8"
  using digit_word_less[of "(15 - r) * 3" h]
  by (simp add: H3_GET_INDEX_DIGIT_def word_less_def)

lemma bit_small_word:
  assumes "0 \<le> d" "d < 8" "bit (word_of_int d :: 64 word) k"
  shows "k < 3"
proof -
  have "(word_of_int d :: 64 word) = word_of_int (take_bit 3 d)"
    using assms by (simp add: take_bit_int_eq_self)
  then have eq: "(word_of_int d :: 64 word) = take_bit 3 (word_of_int d)"
    by (simp add: take_bit_of_int)
  have "bit (take_bit 3 (word_of_int d) :: 64 word) k" 
    using assms(3) eq by simp
  then show "k < 3" by (simp add: bit_simps)
qed

lemma bit_H3_SET_INDEX_DIGIT:
  assumes "0 \<le> d" "d < 8"
  shows "bit (H3_SET_INDEX_DIGIT h r d) n \<longleftrightarrow>
     (if (15 - r) * 3 \<le> n \<and> n < (15 - r) * 3 + 3
      then bit (word_of_int d :: 64 word) (n - (15 - r) * 3) else bit h n)"
  using bit_small_word[OF assms, of "n - (15 - r) * 3"]
  unfolding H3_SET_INDEX_DIGIT_def w7
  by (auto simp: bit_simps dest: bit_imp_le_length)

lemma digit_eq_iff:
  "H3_GET_INDEX_DIGIT h r = H3_GET_INDEX_DIGIT h' r \<longleftrightarrow>
     (\<forall>k<3. bit h ((15 - r) * 3 + k) = bit h' ((15 - r) * 3 + k))" (is "?L = ?R")
proof
  assume ?L
  then have eq: "drop_bit ((15 - r) * 3) h AND 7 = drop_bit ((15 - r) * 3) h' AND 7"
    unfolding H3_GET_INDEX_DIGIT_def by (metis word_uint_eq_iff)
  show ?R
  proof (intro allI impI)
    fix k :: nat assume "k < 3"
    then show "bit h ((15 - r) * 3 + k) = bit h' ((15 - r) * 3 + k)"
      using arg_cong[OF eq, of "\<lambda>w. bit w k"] by (simp add: bit_digit_word)
  qed
next
  assume ?R
  then have "drop_bit ((15 - r) * 3) h AND 7 = drop_bit ((15 - r) * 3) h' AND 7"
    by (intro bit_word_eqI) (auto simp: bit_digit_word)
  then show ?L by (simp add: H3_GET_INDEX_DIGIT_def)
qed

lemma digit_of_word:
  assumes "0 \<le> d" "d < 8"
  shows "H3_GET_INDEX_DIGIT h r = d \<longleftrightarrow>
     (\<forall>k<3. bit h ((15 - r) * 3 + k) = bit (word_of_int d :: 64 word) k)" (is "?L = ?R")
proof -
  have "uint (word_of_int d :: 64 word) = d"
    using assms by (simp add: uint_word_of_int take_bit_int_eq_self)
  then have L: "?L \<longleftrightarrow> drop_bit ((15 - r) * 3) h AND 7 = (word_of_int d :: 64 word)"
    unfolding H3_GET_INDEX_DIGIT_def by (metis word_uint_eq_iff)
  show ?thesis unfolding L
  proof
    assume eq: "drop_bit ((15 - r) * 3) h AND 7 = (word_of_int d :: 64 word)"
    show ?R
    proof (intro allI impI)
      fix k :: nat assume "k < 3"
      then show "bit h ((15 - r) * 3 + k) = bit (word_of_int d :: 64 word) k"
        using arg_cong[OF eq, of "\<lambda>w. bit w k"] by (simp add: bit_digit_word)
    qed
  next
    assume ?R
    then show "drop_bit ((15 - r) * 3) h AND 7 = (word_of_int d :: 64 word)"
      using bit_small_word[OF assms]
      by (intro bit_word_eqI) (auto simp: bit_digit_word)
  qed
qed

lemma get_set_digit:
  assumes "0 \<le> d" "d < 8" "r \<le> 15" "r' \<le> 15"
  shows "H3_GET_INDEX_DIGIT (H3_SET_INDEX_DIGIT h r d) r' = (if r' = r then d else H3_GET_INDEX_DIGIT h r')"
proof (cases "r' = r")
  case True
  then show ?thesis
    by (simp add: digit_of_word[OF assms(1,2)] bit_H3_SET_INDEX_DIGIT[OF assms(1,2)])
next
  case False
  have "\<not> ((15 - r) * 3 \<le> (15 - r') * 3 + k \<and> (15 - r') * 3 + k < (15 - r) * 3 + 3)"
    if "k < 3" for k
    using False assms(3,4) that by auto
  then have "bit (H3_SET_INDEX_DIGIT h r d) ((15 - r') * 3 + k) = bit h ((15 - r') * 3 + k)"
    if "k < 3" for k
    using that by (simp only: bit_H3_SET_INDEX_DIGIT[OF assms(1,2)] if_False)
  then show ?thesis using False
    by (simp add: digit_eq_iff)
qed

lemma high_set_digit:
  assumes "0 \<le> d" "d < 8" "1 \<le> r"
  shows "drop_bit 45 (H3_SET_INDEX_DIGIT h r d) = drop_bit 45 h"
proof (rule bit_word_eqI)
  fix n assume "n < LENGTH(64)"
  have "\<not> ((15 - r) * 3 \<le> 45 + n \<and> 45 + n < (15 - r) * 3 + 3)" using assms(3) by auto
  then show "bit (drop_bit 45 (H3_SET_INDEX_DIGIT h r d)) n = bit (drop_bit 45 h) n"
    by (simp add: bit_simps bit_H3_SET_INDEX_DIGIT[OF assms(1,2)])
qed

lemma H3Index_eqI:
  assumes dig: "\<And>r. 1 \<le> r \<Longrightarrow> r \<le> 15 \<Longrightarrow> H3_GET_INDEX_DIGIT h r = H3_GET_INDEX_DIGIT h' r"
    and high: "drop_bit 45 h = drop_bit 45 h'"
  shows "h = h'"
proof (rule bit_word_eqI)
  fix n assume n: "n < LENGTH(64)"
  show "bit h n = bit h' n"
  proof (cases "n < 45")
    case True
    define r where "r = 15 - n div 3"
    have r: "1 \<le> r" "r \<le> 15" and pos: "(15 - r) * 3 + n mod 3 = n"
      using True by (auto simp: r_def)
    from dig[OF r] have "\<forall>k<3. bit h ((15 - r) * 3 + k) = bit h' ((15 - r) * 3 + k)"
      by (simp add: digit_eq_iff)
    then have "bit h ((15 - r) * 3 + n mod 3) = bit h' ((15 - r) * 3 + n mod 3)" by simp
    then show ?thesis by (simp add: pos)
  next
    case False
    have "bit (drop_bit 45 h) (n - 45) = bit (drop_bit 45 h') (n - 45)" by (simp add: high)
    then show ?thesis using False by (simp add: bit_simps)
  qed
qed

lemma resolution_high: "H3_GET_RESOLUTION h = unat (drop_bit 7 (drop_bit 45 h) AND 15)"
proof -
  have "drop_bit 52 (h AND push_bit 52 15) = drop_bit 7 (drop_bit 45 h) AND 15"
    by (rule bit_word_eqI) (auto simp: bit_simps w15)
  then show ?thesis by (simp add: H3_GET_RESOLUTION_def)
qed

lemma mode_high: "H3_GET_MODE h = uint (drop_bit 14 (drop_bit 45 h) AND 15)"
proof -
  have "drop_bit 59 (h AND push_bit 59 15) = drop_bit 14 (drop_bit 45 h) AND 15"
    by (rule bit_word_eqI) (auto simp: bit_simps w15)
  then show ?thesis by (simp add: H3_GET_MODE_def)
qed

lemma base_cell_high: "H3_GET_BASE_CELL h = uint (drop_bit 45 h AND 127)"
proof -
  have "drop_bit 45 (h AND push_bit 45 127) = drop_bit 45 h AND 127"
    by (rule bit_word_eqI) (auto simp: bit_simps w127)
  then show ?thesis by (simp add: H3_GET_BASE_CELL_def)
qed

lemma resolution_le: "H3_GET_RESOLUTION h \<le> 15"
proof -
  have "drop_bit 7 (drop_bit 45 h) AND 15 \<le> (15 :: 64 word)" by (rule word_and_le1)
  then show ?thesis by (simp add: resolution_high word_le_nat_alt)
qed

lemma fold_digits_high:
  assumes f: "\<forall>d. 0 \<le> d \<and> d < 8 \<longrightarrow> 0 \<le> f d \<and> f d < 8"
    and rs: "\<forall>r\<in>set rs. 1 \<le> r"
  shows "drop_bit 45 (fold (\<lambda>r h. H3_SET_INDEX_DIGIT h r (f (H3_GET_INDEX_DIGIT h r))) rs h) = drop_bit 45 h"
  using rs
proof (induction rs arbitrary: h)
  case Nil
  show ?case by simp
next
  case (Cons r rs)
  have d: "0 \<le> f (H3_GET_INDEX_DIGIT h r) \<and> f (H3_GET_INDEX_DIGIT h r) < 8"
    using f H3_GET_INDEX_DIGIT_range by blast
  show ?case using Cons d by (simp add: high_set_digit)
qed

lemma fold_digits_get:
  assumes f: "\<forall>d. 0 \<le> d \<and> d < 8 \<longrightarrow> 0 \<le> f d \<and> f d < 8"
    and rs: "\<forall>r\<in>set rs. r \<le> 15" "distinct rs" and r': "r' \<le> 15"
  shows "H3_GET_INDEX_DIGIT (fold (\<lambda>r h. H3_SET_INDEX_DIGIT h r (f (H3_GET_INDEX_DIGIT h r))) rs h) r'
           = (if r' \<in> set rs then f (H3_GET_INDEX_DIGIT h r') else H3_GET_INDEX_DIGIT h r')"
  using rs
proof (induction rs arbitrary: h)
  case Nil
  show ?case by simp
next
  case (Cons r rs)
  have d: "0 \<le> f (H3_GET_INDEX_DIGIT h r)" "f (H3_GET_INDEX_DIGIT h r) < 8"
    using f H3_GET_INDEX_DIGIT_range by blast+
  have r: "r \<le> 15" "r \<notin> set rs" using Cons.prems by auto
  show ?case using Cons r r'
    by (auto simp: get_set_digit[OF d])
qed

lemma rotate60ccw_range: "\<forall>d. 0 \<le> d \<and> d < 8 \<longrightarrow> 0 \<le> rotate60ccw d \<and> rotate60ccw d < 8"
  by (simp add: rotate60ccw_def)

lemma rotate60ccw_values:
  "rotate60ccw 1 = 5" "rotate60ccw 5 = 4" "rotate60ccw 4 = 6"
  "rotate60ccw 6 = 2" "rotate60ccw 2 = 3" "rotate60ccw 3 = 1"
  "rotate60ccw 0 = 0" "rotate60ccw 7 = 7"
  by (simp_all add: rotate60ccw_def)

lemma rotate60ccw_other:
  "d \<noteq> 1 \<Longrightarrow> d \<noteq> 2 \<Longrightarrow> d \<noteq> 3 \<Longrightarrow> d \<noteq> 4 \<Longrightarrow> d \<noteq> 5 \<Longrightarrow> d \<noteq> 6 \<Longrightarrow> rotate60ccw d = d"
  by (simp add: rotate60ccw_def)

lemma funpow_6: "(f ^^ 6) x = f (f (f (f (f (f x)))))"
  by (simp add: numeral_eq_Suc funpow_swap1)

lemma rotate60ccw_six: "(rotate60ccw ^^ 6) d = d"
proof -
  consider "d = 1" | "d = 2" | "d = 3" | "d = 4" | "d = 5" | "d = 6"
    | "d \<noteq> 1" "d \<noteq> 2" "d \<noteq> 3" "d \<noteq> 4" "d \<noteq> 5" "d \<noteq> 6"
    by blast
  then show ?thesis
  proof cases
    case 7
    then have "rotate60ccw d = d" by (rule rotate60ccw_other)
    then show ?thesis by (simp add: funpow_6)
  qed (simp_all add: funpow_6 rotate60ccw_values)
qed

lemma h3Rotate60ccw_high: "drop_bit 45 (h3Rotate60ccw h) = drop_bit 45 h"
  unfolding h3Rotate60ccw_def
  by (rule fold_digits_high[OF rotate60ccw_range]) auto

lemma h3Rotate60ccw_resolution: "H3_GET_RESOLUTION (h3Rotate60ccw h) = H3_GET_RESOLUTION h"
  by (simp add: resolution_high h3Rotate60ccw_high)

lemma h3Rotate60ccw_digit:
  assumes "r \<le> 15"
  shows "H3_GET_INDEX_DIGIT (h3Rotate60ccw h) r =
     (if 1 \<le> r \<and> r \<le> H3_GET_RESOLUTION h then rotate60ccw (H3_GET_INDEX_DIGIT h r)
      else H3_GET_INDEX_DIGIT h r)"
proof -
  have "\<forall>r\<in>set [1 ..< Suc (H3_GET_RESOLUTION h)]. r \<le> 15"
    using resolution_le[of h] by auto
  then have "H3_GET_INDEX_DIGIT (fold (\<lambda>r h. H3_SET_INDEX_DIGIT h r (rotate60ccw (H3_GET_INDEX_DIGIT h r)))
        [1 ..< Suc (H3_GET_RESOLUTION h)] h) r =
      (if r \<in> set [1 ..< Suc (H3_GET_RESOLUTION h)] then rotate60ccw (H3_GET_INDEX_DIGIT h r)
       else H3_GET_INDEX_DIGIT h r)"
    using assms by (intro fold_digits_get rotate60ccw_range) simp_all
  then show ?thesis unfolding h3Rotate60ccw_def by auto
qed

lemma h3Rotate60ccw_funpow:
  "drop_bit 45 ((h3Rotate60ccw ^^ n) h) = drop_bit 45 h \<and>
   H3_GET_RESOLUTION ((h3Rotate60ccw ^^ n) h) = H3_GET_RESOLUTION h \<and>
   (\<forall>r\<le>15. H3_GET_INDEX_DIGIT ((h3Rotate60ccw ^^ n) h) r =
     (if 1 \<le> r \<and> r \<le> H3_GET_RESOLUTION h then (rotate60ccw ^^ n) (H3_GET_INDEX_DIGIT h r)
      else H3_GET_INDEX_DIGIT h r))"
  by (induction n) (simp_all add: h3Rotate60ccw_high h3Rotate60ccw_resolution h3Rotate60ccw_digit)


section \<open>Rotating an index six times\<close>

text \<open>
  Claim C6. For every cell index, applying the whole-index counterclockwise rotation
  \<open>_h3Rotate60ccw\<close> six times in succession yields the original index. (It holds for every
  64-bit value, valid cell or not: the digits 0 and 7 are fixed by \<open>_rotate60ccw\<close>.)
\<close>

theorem h3Rotate60ccw_six_times: "(h3Rotate60ccw ^^ 6) h = h"
proof (rule H3Index_eqI)
  show "drop_bit 45 ((h3Rotate60ccw ^^ 6) h) = drop_bit 45 h"
    using h3Rotate60ccw_funpow[of 6 h] by blast
next
  fix r :: nat assume "1 \<le> r" "r \<le> 15"
  then show "H3_GET_INDEX_DIGIT ((h3Rotate60ccw ^^ 6) h) r = H3_GET_INDEX_DIGIT h r"
    using h3Rotate60ccw_funpow[of 6 h] by (simp only: rotate60ccw_six if_cancel)
qed


theorem h3Rotate60ccw_six_times_witness:
  "(h3Rotate60ccw ^^ 6) 0x89283080ddbffff = 0x89283080ddbffff"
  by (rule h3Rotate60ccw_six_times)

section \<open>Zeroing a range of digits\<close>

text \<open>
  Claim C7. For every index \<open>h\<close> and all integers \<open>start\<close>, \<open>end\<close>:
  \<open>_zeroIndexDigits(h, start, end)\<close> returns \<open>h\<close> unchanged whenever \<open>start > end\<close>; and when
  \<open>1 \<le> start \<le> end \<le> 15\<close> it sets the digits of the levels \<open>start .. end\<close> to zero and leaves
  every other bit of \<open>h\<close> unchanged: every bit outside the slots of these levels, hence the
  digits of the other levels, the mode, the resolution and the base cell.
\<close>

theorem zeroIndexDigits_frame:
  "(start > end' \<longrightarrow> zeroIndexDigits h start end' = h) \<and>
   (1 \<le> start \<and> start \<le> end' \<and> end' \<le> 15 \<longrightarrow>
      (\<forall>r. start \<le> int r \<and> int r \<le> end' \<longrightarrow>
           H3_GET_INDEX_DIGIT (zeroIndexDigits h start end') r = 0) \<and>
      (\<forall>n. \<not> (3 * (15 - end') \<le> int n \<and> int n < 3 * (16 - start)) \<longrightarrow>
           bit (zeroIndexDigits h start end') n = bit h n) \<and>
      (\<forall>r. 1 \<le> r \<and> r \<le> 15 \<and> (int r < start \<or> end' < int r) \<longrightarrow>
           H3_GET_INDEX_DIGIT (zeroIndexDigits h start end') r = H3_GET_INDEX_DIGIT h r) \<and>
      H3_GET_MODE (zeroIndexDigits h start end') = H3_GET_MODE h \<and>
      H3_GET_RESOLUTION (zeroIndexDigits h start end') = H3_GET_RESOLUTION h \<and>
      H3_GET_BASE_CELL (zeroIndexDigits h start end') = H3_GET_BASE_CELL h)"
proof (intro conjI impI)
  show "zeroIndexDigits h start end' = h" if "start > end'"
    using that by (simp add: zeroIndexDigits_def)
next
  assume range: "1 \<le> start \<and> start \<le> end' \<and> end' \<le> 15"
  let ?z = "zeroIndexDigits h start end'"
  have bitz: "bit ?z n \<longleftrightarrow> bit h n \<and> \<not> (3 * (15 - end') \<le> int n \<and> int n < 3 * (16 - start))" for n
    using range unfolding zeroIndexDigits_def Let_def
    by (auto simp: bit_simps dest: bit_imp_le_length)
  show "\<forall>r. start \<le> int r \<and> int r \<le> end' \<longrightarrow> H3_GET_INDEX_DIGIT ?z r = 0"
  proof (intro allI impI)
    fix r :: nat assume r: "start \<le> int r \<and> int r \<le> end'"
    have "3 * (15 - end') \<le> int ((15 - r) * 3 + k) \<and> int ((15 - r) * 3 + k) < 3 * (16 - start)"
      if "k < 3" for k using that r range by auto
    then have "\<forall>k<3. bit ?z ((15 - r) * 3 + k) = bit (word_of_int 0 :: 64 word) k"
      by (simp add: bitz)
    then show "H3_GET_INDEX_DIGIT ?z r = 0"
      using digit_of_word[of 0 ?z r] by simp
  qed
  show "\<forall>n. \<not> (3 * (15 - end') \<le> int n \<and> int n < 3 * (16 - start)) \<longrightarrow> bit ?z n = bit h n"
    by (simp add: bitz)
  show "\<forall>r. 1 \<le> r \<and> r \<le> 15 \<and> (int r < start \<or> end' < int r) \<longrightarrow>
           H3_GET_INDEX_DIGIT ?z r = H3_GET_INDEX_DIGIT h r"
  proof (intro allI impI)
    fix r :: nat assume r: "1 \<le> r \<and> r \<le> 15 \<and> (int r < start \<or> end' < int r)"
    have "\<not> (3 * (15 - end') \<le> int ((15 - r) * 3 + k) \<and> int ((15 - r) * 3 + k) < 3 * (16 - start))"
      if "k < 3" for k using that r range by auto
    then show "H3_GET_INDEX_DIGIT ?z r = H3_GET_INDEX_DIGIT h r"
      by (simp add: digit_eq_iff bitz)
  qed
  have high: "drop_bit 45 ?z = drop_bit 45 h"
  proof (rule bit_word_eqI)
    fix n assume "n < LENGTH(64)"
    have "\<not> (3 * (15 - end') \<le> int (45 + n) \<and> int (45 + n) < 3 * (16 - start))"
      using range by auto
    then show "bit (drop_bit 45 ?z) n = bit (drop_bit 45 h) n"
      by (simp add: bit_simps bitz)
  qed
  show "H3_GET_MODE ?z = H3_GET_MODE h" by (simp add: mode_high high)
  show "H3_GET_RESOLUTION ?z = H3_GET_RESOLUTION h" by (simp add: resolution_high high)
  show "H3_GET_BASE_CELL ?z = H3_GET_BASE_CELL h" by (simp add: base_cell_high high)
qed

theorem zeroIndexDigits_frame_witness:
  "zeroIndexDigits 0x89283080ddbffff 5 4 = 0x89283080ddbffff \<and>
   H3_GET_INDEX_DIGIT (zeroIndexDigits 0x89283080ddbffff 2 4) 2 = 0 \<and>
   H3_GET_INDEX_DIGIT (zeroIndexDigits 0x89283080ddbffff 2 4) 4 = 0 \<and>
   bit (zeroIndexDigits 0x89283080ddbffff 2 4) 59 = bit (0x89283080ddbffff :: H3Index) 59 \<and>
   H3_GET_INDEX_DIGIT (zeroIndexDigits 0x89283080ddbffff 2 4) 7 = H3_GET_INDEX_DIGIT 0x89283080ddbffff 7 \<and>
   H3_GET_MODE (zeroIndexDigits 0x89283080ddbffff 2 4) = H3_GET_MODE 0x89283080ddbffff \<and>
   H3_GET_RESOLUTION (zeroIndexDigits 0x89283080ddbffff 2 4) = H3_GET_RESOLUTION 0x89283080ddbffff \<and>
   H3_GET_BASE_CELL (zeroIndexDigits 0x89283080ddbffff 2 4) = H3_GET_BASE_CELL 0x89283080ddbffff"
proof -
  have gt: "(5::int) > 4" and range: "(1::int) \<le> 2 \<and> (2::int) \<le> 4 \<and> (4::int) \<le> 15"
    by simp_all
  note noop = zeroIndexDigits_frame [where start = 5 and end' = 4 and h = "0x89283080ddbffff",
      THEN conjunct1, THEN mp, OF gt]
  note fr = zeroIndexDigits_frame [where start = 2 and end' = 4 and h = "0x89283080ddbffff",
      THEN conjunct2, THEN mp, OF range]
  have d2: "H3_GET_INDEX_DIGIT (zeroIndexDigits 0x89283080ddbffff 2 4) 2 = 0"
    using fr [THEN conjunct1, THEN spec, of 2] by simp
  have d4: "H3_GET_INDEX_DIGIT (zeroIndexDigits 0x89283080ddbffff 2 4) 4 = 0"
    using fr [THEN conjunct1, THEN spec, of 4] by simp
  have b59: "bit (zeroIndexDigits 0x89283080ddbffff 2 4) 59 = bit (0x89283080ddbffff :: H3Index) 59"
    using fr [THEN conjunct2, THEN conjunct1, THEN spec, of 59] by simp
  have d7: "H3_GET_INDEX_DIGIT (zeroIndexDigits 0x89283080ddbffff 2 4) 7 = H3_GET_INDEX_DIGIT 0x89283080ddbffff 7"
    using fr [THEN conjunct2, THEN conjunct2, THEN conjunct1, THEN spec, of 7] by simp
  from noop d2 d4 b59 d7 fr [THEN conjunct2, THEN conjunct2, THEN conjunct2]
  show ?thesis by blast
qed

section \<open>Counting the loops of a polygon\<close>

lemma countLoopsFrom_chain:
  "loopChain H p as \<Longrightarrow> countLoopsFrom H p n = Some (n + int (length as))"
proof (induction as arbitrary: p n)
  case Nil
  then show ?case by (simp add: countLoopsFrom.simps)
next
  case (Cons a as)
  then obtain node where node: "p = Some a" "loops H a = Some node" "loopChain H (loop_next node) as"
    by (auto split: option.splits)
  from Cons.IH[OF node(3), of "n + 1"] node(1,2) show ?case
    by (subst countLoopsFrom.simps) simp
qed

lemma countLoopsFrom_Some_chain:
  assumes "countLoopsFrom H p n = Some m"
  shows "\<exists>as. loopChain H p as \<and> m = n + int (length as)"
proof (rule countLoopsFrom.raw_induct
    [where P = "\<lambda>H p n m. \<exists>as. loopChain H p as \<and> m = n + int (length as)", OF _ assms])
  fix f :: "GeoHeap \<Rightarrow> addr option \<Rightarrow> int \<Rightarrow> int option" and H p n m
  assume IH: "\<And>H p n m. f H p n = Some m \<Longrightarrow> \<exists>as. loopChain H p as \<and> m = n + int (length as)"
    and body: "(case p of None \<Rightarrow> Some n
       | Some a \<Rightarrow> (case loops H a of None \<Rightarrow> None
           | Some node \<Rightarrow> f H (loop_next node) (n + 1))) = Some m"
  show "\<exists>as. loopChain H p as \<and> m = n + int (length as)"
  proof (cases p)
    case None
    with body show ?thesis by (intro exI[of _ "[]"]) simp
  next
    case (Some a)
    with body obtain node where node: "loops H a = Some node"
      "f H (loop_next node) (n + 1) = Some m"
      by (auto split: option.splits)
    from IH[OF node(2)] obtain as where "loopChain H (loop_next node) as" "m = n + 1 + int (length as)"
      by blast
    then show ?thesis using Some node(1)
      by (intro exI[of _ "a # as"]) simp
  qed
qed


text \<open>
  Claim C9. \<open>countLinkedLoops\<close> returns the number of loop nodes on the polygon's loop chain:
  when the chain from \<open>polygon->first\<close> runs through the nodes \<open>as\<close> and ends with \<open>NULL\<close>, the
  call returns \<open>length as\<close>; so it returns 3 for a chain of exactly three nodes and 0 for an
  empty (\<open>NULL\<close>) chain. Conversely a value is returned only for such a chain.
\<close>

theorem countLinkedLoops_chain:
  "(polygons H polygon = Some p \<and> loopChain H (polygon_first p) as \<longrightarrow>
      countLinkedLoops H polygon = Some (int (length as))) \<and>
   (polygons H polygon = Some p \<and> loopChain H (polygon_first p) as \<and> length as = 3 \<longrightarrow>
      countLinkedLoops H polygon = Some 3) \<and>
   (polygons H polygon = Some p \<and> polygon_first p = None \<longrightarrow>
      countLinkedLoops H polygon = Some 0) \<and>
   (countLinkedLoops H polygon = Some n \<longrightarrow>
      (\<exists>q bs. polygons H polygon = Some q \<and> loopChain H (polygon_first q) bs \<and>
         n = int (length bs)))"
proof (intro conjI impI)
  have gen: "countLinkedLoops H polygon = Some (int (length as))"
    if "polygons H polygon = Some p" "loopChain H (polygon_first p) as" for as
    using that countLoopsFrom_chain[of H "polygon_first p" as 0]
    by (simp add: countLinkedLoops_def)
  show "countLinkedLoops H polygon = Some (int (length as))"
    if "polygons H polygon = Some p \<and> loopChain H (polygon_first p) as"
    using that gen by simp
  show "countLinkedLoops H polygon = Some 3"
    if "polygons H polygon = Some p \<and> loopChain H (polygon_first p) as \<and> length as = 3"
    using that gen[of as] by simp
  show "countLinkedLoops H polygon = Some 0"
    if "polygons H polygon = Some p \<and> polygon_first p = None"
    using that gen[of "[]"] by simp
  show "\<exists>q bs. polygons H polygon = Some q \<and> loopChain H (polygon_first q) bs \<and>
      n = int (length bs)" if "countLinkedLoops H polygon = Some n"
  proof -
    from that obtain q where q: "polygons H polygon = Some q"
      "countLoopsFrom H (polygon_first q) 0 = Some n"
      by (auto simp: countLinkedLoops_def split: option.splits)
    from countLoopsFrom_Some_chain[OF q(2)] q(1) show ?thesis by auto
  qed
qed

theorem countLinkedLoops_chain_witness:
  "countLinkedLoops threeLoopHeap 1 = Some 3 \<and> countLinkedLoops threeLoopHeap 2 = Some 0"
proof -
  have p1: "polygons threeLoopHeap 1 =
      Some \<lparr> polygon_first = Some 10, polygon_last = Some 12, polygon_next = None \<rparr> \<and>
    loopChain threeLoopHeap
      (polygon_first \<lparr> polygon_first = Some 10, polygon_last = Some 12, polygon_next = None \<rparr>)
      [10, 11, 12] \<and> length [10, 11, 12 :: addr] = 3"
    by (simp add: threeLoopHeap_def)
  have p2: "polygons threeLoopHeap 2 =
      Some \<lparr> polygon_first = None, polygon_last = None, polygon_next = None \<rparr> \<and>
    polygon_first \<lparr> polygon_first = None, polygon_last = None, polygon_next = None \<rparr> = None"
    by (simp add: threeLoopHeap_def)
  from countLinkedLoops_chain [THEN conjunct2, THEN conjunct1, THEN mp, OF p1]
    countLinkedLoops_chain [where as = "[]", THEN conjunct2, THEN conjunct2, THEN conjunct1,
      THEN mp, OF p2]
  show ?thesis by (rule conjI)
qed

section \<open>The neighbor walk: tables, guard and rotation count\<close>

declare neighborLoop.simps [simp del]

lemma set_get_digit_id: "H3_SET_INDEX_DIGIT h r (H3_GET_INDEX_DIGIT h r) = h"
proof (rule bit_word_eqI)
  fix n assume "n < LENGTH(64)"
  let ?d = "H3_GET_INDEX_DIGIT h r"
  have d: "0 \<le> ?d" "?d < 8" using H3_GET_INDEX_DIGIT_range[of h r] by simp_all
  have w: "(word_of_int ?d :: 64 word) = drop_bit ((15 - r) * 3) h AND 7"
    by (simp add: H3_GET_INDEX_DIGIT_def)
  show "bit (H3_SET_INDEX_DIGIT h r ?d) n = bit h n"
    unfolding bit_H3_SET_INDEX_DIGIT[OF d] w
    by (auto simp: bit_digit_word)
qed

lemma digit_cases:
  assumes "0 \<le> (d::int)" "d < 7"
  obtains "d = 0" | "d = 1" | "d = 2" | "d = 3" | "d = 4" | "d = 5" | "d = 6"
  using assms by arith

lemma tables_center_direction:
  assumes "0 \<le> d" "d < 7"
  shows "NEW_DIGIT_II ! nat d ! nat 0 = d" "NEW_DIGIT_III ! nat d ! nat 0 = d"
    "NEW_ADJUSTMENT_II ! nat d ! nat 0 = 0" "NEW_ADJUSTMENT_III ! nat d ! nat 0 = 0"
  using assms
  by (cases d rule: digit_cases; simp add: NEW_DIGIT_II_def NEW_DIGIT_III_def
      NEW_ADJUSTMENT_II_def NEW_ADJUSTMENT_III_def)+

lemma tables_center_digit:
  assumes "0 \<le> dir" "dir < 7"
  shows "NEW_DIGIT_II ! nat 0 ! nat dir = dir" "NEW_DIGIT_III ! nat 0 ! nat dir = dir"
    "NEW_ADJUSTMENT_II ! nat 0 ! nat dir = 0" "NEW_ADJUSTMENT_III ! nat 0 ! nat dir = 0"
  using assms
  by (cases dir rule: digit_cases; simp add: NEW_DIGIT_II_def NEW_DIGIT_III_def
      NEW_ADJUSTMENT_II_def NEW_ADJUSTMENT_III_def)+

lemma table_entries:
  "\<forall>row\<in>set NEW_DIGIT_II. length row = 7 \<and> (\<forall>x\<in>set row. 0 \<le> x \<and> x < 7)"
  "\<forall>row\<in>set NEW_DIGIT_III. length row = 7 \<and> (\<forall>x\<in>set row. 0 \<le> x \<and> x < 7)"
  "\<forall>row\<in>set NEW_ADJUSTMENT_II. length row = 7 \<and> (\<forall>x\<in>set row. 0 \<le> x \<and> x < 7)"
  "\<forall>row\<in>set NEW_ADJUSTMENT_III. length row = 7 \<and> (\<forall>x\<in>set row. 0 \<le> x \<and> x < 7)"
  "length NEW_DIGIT_II = 7" "length NEW_DIGIT_III = 7"
  "length NEW_ADJUSTMENT_II = 7" "length NEW_ADJUSTMENT_III = 7"
  by (simp_all add: NEW_DIGIT_II_def NEW_DIGIT_III_def NEW_ADJUSTMENT_II_def NEW_ADJUSTMENT_III_def)

lemma table_lookup_range:
  assumes tab: "\<forall>row\<in>set tab. length row = 7 \<and> (\<forall>x\<in>set row. 0 \<le> x \<and> x < (7::int))" "length tab = 7"
    and d: "0 \<le> d" "d < 7" and dir: "0 \<le> dir" "dir < 7"
  shows "0 \<le> tab ! nat d ! nat dir \<and> tab ! nat d ! nat dir < 7"
proof -
  have "tab ! nat d \<in> set tab" using tab(2) d by (intro nth_mem) simp
  with tab(1) have row: "length (tab ! nat d) = 7" "\<forall>x\<in>set (tab ! nat d). 0 \<le> x \<and> x < 7"
    by auto
  have "tab ! nat d ! nat dir \<in> set (tab ! nat d)" using row(1) dir by (intro nth_mem) simp
  with row(2) show ?thesis by blast
qed

lemma c_rem_bounds: "- 5 \<le> c_rem a 6 \<and> c_rem a 6 \<le> 5"
proof -
  have "0 \<le> \<bar>a\<bar> mod 6 \<and> \<bar>a\<bar> mod 6 < 6" by simp
  then show ?thesis unfolding c_rem_def by (cases "a < 0"; cases "a = 0"; simp add: sgn_if; arith)
qed

lemma c_rem_nonneg: "0 \<le> a \<Longrightarrow> c_rem a 6 = a mod 6"
  by (simp add: c_rem_def sgn_if)

lemma c_rem_idem: "c_rem (c_rem a 6) 6 = c_rem a 6"
proof (cases "0 \<le> a")
  case True
  then show ?thesis by (simp add: c_rem_nonneg)
next
  case False
  then have "c_rem a 6 = - (\<bar>a\<bar> mod 6)" by (simp add: c_rem_def sgn_if)
  moreover have "0 \<le> \<bar>a\<bar> mod 6" "\<bar>a\<bar> mod 6 < 6" by simp_all
  ultimately show ?thesis by (simp add: c_rem_def sgn_if)
qed

lemma rotate60ccw_center_funpow: "(rotate60ccw ^^ n) 0 = 0"
  by (induction n) (simp_all add: rotate60ccw_values)

lemma h3NeighborRotations_invalid_direction:
  "dir < 0 \<or> 7 \<le> dir \<Longrightarrow> h3NeighborRotations T origin dir rotations = (Inl E_FAILED, rotations)"
  by (auto simp add: h3NeighborRotations_def)

lemma neighborLoop_center:
  assumes "H3_GET_INDEX_DIGIT current (Suc r) \<noteq> 7"
  shows "neighborLoop T obc (Suc r) current 0 rotations = Inr (current, rotations, 0)"
proof -
  let ?d = "H3_GET_INDEX_DIGIT current (Suc r)"
  have d: "0 \<le> ?d" "?d < 7" using H3_GET_INDEX_DIGIT_range[of current "Suc r"] assms by simp_all
  note t = tables_center_direction[OF d, simplified]
  show ?thesis using assms
    by (simp add: neighborLoop.simps Let_def t set_get_digit_id)
qed

lemma h3NeighborRotations_center:
  assumes "H3_GET_BASE_CELL origin < 122" "\<not> isBaseCellPentagon T (H3_GET_BASE_CELL origin)"
    "1 \<le> H3_GET_RESOLUTION origin" "H3_GET_INDEX_DIGIT origin (H3_GET_RESOLUTION origin) \<noteq> 7"
  shows "h3NeighborRotations T origin 0 rotations = (Inr origin, c_rem rotations 6)"
proof -
  obtain r where r: "H3_GET_RESOLUTION origin = Suc r"
    using assms(3) by (cases "H3_GET_RESOLUTION origin") auto
  have bc: "0 \<le> H3_GET_BASE_CELL origin" by (simp add: H3_GET_BASE_CELL_def)
  have loop: "neighborLoop T (H3_GET_BASE_CELL origin) (H3_GET_RESOLUTION origin) origin 0
      (c_rem rotations 6) = Inr (origin, c_rem rotations 6, 0)"
    unfolding r using assms(4) r by (intro neighborLoop_center) simp
  have adj: "pentagonAdjust T (H3_GET_BASE_CELL origin) (h3LeadingNonZeroDigit origin) origin 0
      (c_rem rotations 6) = Inr (origin, c_rem rotations 6)"
    using assms(2) by (simp add: pentagonAdjust_def)
  show ?thesis
    using assms(1) bc
    by (simp add: h3NeighborRotations_def Let_def rotate60ccw_center_funpow loop adj c_rem_idem
        del: neighborLoop.simps)
qed

lemma neighborLoop_rotations:
  "neighborLoop T obc lvl cur dir rots = Inr (cur', rots', nr) \<Longrightarrow> rots \<le> rots' \<and> rots' \<le> rots + 1"
proof (induction lvl arbitrary: cur dir)
  case 0
  then show ?case by (auto simp: neighborLoop.simps Let_def split: if_splits)
next
  case (Suc r)
  from Suc.prems show ?case
    by (auto simp: neighborLoop.simps Let_def split: if_splits dest: Suc.IH)
qed

lemma pentagonAdjust_rotations:
  "pentagonAdjust T obc old cur nr rots = Inr (out, rots') \<Longrightarrow> rots \<le> rots' \<and> rots' \<le> rots + 5"
  by (auto simp: pentagonAdjust_def Let_def split: if_splits sum.splits prod.splits)

lemma isResolutionClassIII_odd: "isResolutionClassIII n \<longleftrightarrow> odd n"
  by (simp add: isResolutionClassIII_def odd_iff_mod_2_eq_one)

text \<open>
  The walk on a concrete cell: the six steps from the resolution 9 cell \<open>0x8928308280fffff\<close>
  stay inside base cell 20 and give its six neighbors.
\<close>

lemma h3NeighborRotations_six_neighbors:
  "map (\<lambda>dir. h3NeighborRotations sampleBaseCells 0x8928308280fffff dir 0)
     [K_AXES_DIGIT, J_AXES_DIGIT, JK_AXES_DIGIT, I_AXES_DIGIT, IK_AXES_DIGIT, IJ_AXES_DIGIT] =
   [(Inr 0x8928308283bffff, 0), (Inr 0x89283082873ffff, 0), (Inr 0x89283082877ffff, 0),
    (Inr 0x89283082803ffff, 0), (Inr 0x89283082807ffff, 0), (Inr 0x8928308280bffff, 0)]"
  by code_simp

subsection \<open>Which table pair an iteration consults\<close>

text \<open>
  Claim C3, as amended. An iteration of the walk that rewrites the digit of level \<open>r + 1\<close>
  consults the Class II pair (\<open>NEW_DIGIT_II\<close>, \<open>NEW_ADJUSTMENT_II\<close>) exactly when
  \<open>isResolutionClassIII(r + 1)\<close> holds, that is when the level \<open>r + 1\<close> is odd, and the
  Class III pair exactly when that level is even; an invalid digit (7) ends the walk with
  \<open>E_CELL_INVALID\<close> before any table is read. (The claim has the two classes the other way
  round: the pair is named after the class of the coarser resolution \<open>r\<close> that the carry
  moves to.)
\<close>

theorem neighborLoop_table_choice:
  "(isResolutionClassIII (Suc r) \<longleftrightarrow> odd (Suc r)) \<and>
   (H3_GET_INDEX_DIGIT current (Suc r) = INVALID_DIGIT \<longrightarrow>
      neighborLoop T oldBaseCell (Suc r) current dir rotations = Inl E_CELL_INVALID) \<and>
   (H3_GET_INDEX_DIGIT current (Suc r) \<noteq> INVALID_DIGIT \<longrightarrow>
      neighborLoop T oldBaseCell (Suc r) current dir rotations =
        (let oldDigit = H3_GET_INDEX_DIGIT current (Suc r);
             newDigit = (if odd (Suc r) then NEW_DIGIT_II else NEW_DIGIT_III) ! nat oldDigit ! nat dir;
             nextDir = (if odd (Suc r) then NEW_ADJUSTMENT_II else NEW_ADJUSTMENT_III)
                         ! nat oldDigit ! nat dir;
             current1 = H3_SET_INDEX_DIGIT current (Suc r) newDigit
         in if nextDir \<noteq> CENTER_DIGIT
            then neighborLoop T oldBaseCell r current1 nextDir rotations
            else Inr (current1, rotations, 0)))"
proof (intro conjI impI)
  show "isResolutionClassIII (Suc r) \<longleftrightarrow> odd (Suc r)" by (rule isResolutionClassIII_odd)
next
  assume "H3_GET_INDEX_DIGIT current (Suc r) = INVALID_DIGIT"
  then show "neighborLoop T oldBaseCell (Suc r) current dir rotations = Inl E_CELL_INVALID"
    by (simp add: neighborLoop.simps)
next
  assume valid: "H3_GET_INDEX_DIGIT current (Suc r) \<noteq> INVALID_DIGIT"
  show "neighborLoop T oldBaseCell (Suc r) current dir rotations =
        (let oldDigit = H3_GET_INDEX_DIGIT current (Suc r);
             newDigit = (if odd (Suc r) then NEW_DIGIT_II else NEW_DIGIT_III) ! nat oldDigit ! nat dir;
             nextDir = (if odd (Suc r) then NEW_ADJUSTMENT_II else NEW_ADJUSTMENT_III)
                         ! nat oldDigit ! nat dir;
             current1 = H3_SET_INDEX_DIGIT current (Suc r) newDigit
         in if nextDir \<noteq> CENTER_DIGIT
            then neighborLoop T oldBaseCell r current1 nextDir rotations
            else Inr (current1, rotations, 0))"
  proof (cases "odd (Suc r)")
    case True
    then have "isResolutionClassIII (Suc r)" by (simp add: isResolutionClassIII_odd)
    with valid True show ?thesis
      by (simp add: neighborLoop.simps Let_def)
  next
    case False
    then have "\<not> isResolutionClassIII (Suc r)" by (simp add: isResolutionClassIII_odd)
    with valid False show ?thesis
      by (simp add: neighborLoop.simps Let_def)
  qed
qed

theorem neighborLoop_table_choice_witness:
  "neighborLoop sampleBaseCells 0 2 0x820017fffffffff J_AXES_DIGIT 0 =
     neighborLoop sampleBaseCells 0 1 (H3_SET_INDEX_DIGIT 0x820017fffffffff 2 I_AXES_DIGIT) J_AXES_DIGIT 0"
proof -
  have s: "Suc 1 = 2" by simp
  have d: "H3_GET_INDEX_DIGIT 0x820017fffffffff 2 \<noteq> 7"
    by (simp add: H3_GET_INDEX_DIGIT_def)
  have t: "(let oldDigit = H3_GET_INDEX_DIGIT 0x820017fffffffff 2;
             newDigit = (if odd (2::nat) then NEW_DIGIT_II else NEW_DIGIT_III) ! nat oldDigit ! nat 2;
             nextDir = (if odd (2::nat) then NEW_ADJUSTMENT_II else NEW_ADJUSTMENT_III)
                         ! nat oldDigit ! nat 2;
             current1 = H3_SET_INDEX_DIGIT 0x820017fffffffff 2 newDigit
         in if nextDir \<noteq> CENTER_DIGIT
            then neighborLoop sampleBaseCells 0 1 current1 nextDir 0
            else Inr (current1, 0, 0)) =
     neighborLoop sampleBaseCells 0 1 (H3_SET_INDEX_DIGIT 0x820017fffffffff 2 4) 2 0"
    by (simp add: H3_GET_INDEX_DIGIT_def NEW_DIGIT_III_def NEW_ADJUSTMENT_III_def Let_def)
  note step = neighborLoop_table_choice [where r = 1 and current = "0x820017fffffffff"
      and T = sampleBaseCells and oldBaseCell = 0 and dir = 2 and rotations = 0, unfolded s,
      THEN conjunct2, THEN conjunct2, THEN mp, OF d]
  show ?thesis by (rule trans [OF step t])
qed

text \<open>
  The claim as stated fails at the resolution 2 cell \<open>0x820017fffffffff\<close> (base cell 0,
  digits 0 and J) stepped in direction J: level 2 is Class II, and the digit written there
  is the entry 4 of \<open>NEW_DIGIT_III\<close>, not the entry 1 of \<open>NEW_DIGIT_II\<close>.
\<close>

theorem neighborLoop_class_counterexample:
  "\<not> isResolutionClassIII 2 \<and>
   H3_GET_INDEX_DIGIT 0x820017fffffffff 2 = J_AXES_DIGIT \<and>
   h3NeighborRotations sampleBaseCells 0x820017fffffffff J_AXES_DIGIT 0 = (Inr 0x8200a7fffffffff, 0) \<and>
   H3_GET_INDEX_DIGIT 0x8200a7fffffffff 2 = NEW_DIGIT_III ! 2 ! 2 \<and>
   H3_GET_INDEX_DIGIT 0x8200a7fffffffff 2 \<noteq> NEW_DIGIT_II ! 2 ! 2"
proof -
  have "h3NeighborRotations sampleBaseCells 0x820017fffffffff 2 0 = (Inr 0x8200a7fffffffff, 0)"
    by code_simp
  then show ?thesis
    by (simp add: isResolutionClassIII_def H3_GET_INDEX_DIGIT_def NEW_DIGIT_III_def NEW_DIGIT_II_def)
qed

subsection \<open>The direction guard\<close>

text \<open>
  Claim C4, as amended. For every origin cell and every rotation count, a direction below
  \<open>CENTER_DIGIT\<close> (0) or at or above \<open>INVALID_DIGIT\<close> (7) fails with \<open>E_FAILED\<close>, writes no
  cell and leaves the rotation count as it was. \<open>CENTER_DIGIT\<close>, which is not one of the six
  direction digits either, passes the guard: on a cell of resolution 1 or more in a
  non-pentagon base cell below 122 whose finest digit is not 7 the call succeeds and
  returns the origin itself.
\<close>

theorem h3NeighborRotations_direction_guard:
  "(dir < CENTER_DIGIT \<or> INVALID_DIGIT \<le> dir \<longrightarrow>
      h3NeighborRotations T origin dir rotations = (Inl E_FAILED, rotations)) \<and>
   (H3_GET_BASE_CELL origin < NUM_BASE_CELLS \<and> \<not> isBaseCellPentagon T (H3_GET_BASE_CELL origin) \<and>
    1 \<le> H3_GET_RESOLUTION origin \<and>
    H3_GET_INDEX_DIGIT origin (H3_GET_RESOLUTION origin) \<noteq> INVALID_DIGIT \<longrightarrow>
      h3NeighborRotations T origin CENTER_DIGIT rotations = (Inr origin, c_rem rotations 6))"
  using h3NeighborRotations_invalid_direction[of dir T origin rotations]
    h3NeighborRotations_center[of origin T rotations]
  by blast

theorem h3NeighborRotations_direction_guard_witness:
  "h3NeighborRotations sampleBaseCells 0x89283080ddbffff 7 2 = (Inl E_FAILED, 2) \<and>
   h3NeighborRotations sampleBaseCells 0x89283080ddbffff 0 8 = (Inr 0x89283080ddbffff, c_rem 8 6)"
proof -
  have a: "(7::int) < 0 \<or> (7::int) \<le> 7" by simp
  have b: "H3_GET_BASE_CELL 0x89283080ddbffff < 122 \<and>
      \<not> isBaseCellPentagon sampleBaseCells (H3_GET_BASE_CELL 0x89283080ddbffff) \<and>
      1 \<le> H3_GET_RESOLUTION 0x89283080ddbffff \<and>
      H3_GET_INDEX_DIGIT 0x89283080ddbffff (H3_GET_RESOLUTION 0x89283080ddbffff) \<noteq> 7"
    by (simp add: H3_GET_BASE_CELL_def H3_GET_RESOLUTION_def H3_GET_INDEX_DIGIT_def
        sampleBaseCells_def)
  from h3NeighborRotations_direction_guard [THEN conjunct1, THEN mp, OF a]
    h3NeighborRotations_direction_guard [THEN conjunct2, THEN mp, OF b]
  show ?thesis by (rule conjI)
qed

text \<open>
  The claim as stated fails for the direction \<open>CENTER_DIGIT\<close>: on the resolution 9 cell of
  the benchmark the call succeeds.
\<close>

theorem h3NeighborRotations_center_counterexample:
  "h3NeighborRotations sampleBaseCells 0x89283080ddbffff CENTER_DIGIT 0 = (Inr 0x89283080ddbffff, 0)"
  by code_simp

subsection \<open>The rotation count that is stored back\<close>

text \<open>
  Claim C5, as amended. Every successful call stores back the C remainder (the quotient
  truncated towards zero) of \<open>rotations + newRotations\<close> by 6, where \<open>rotations\<close> is the input
  count reduced by the same remainder plus the adjustments made on the way; it lies between
  -5 and 5, and between 0 and 5 (and is the mathematical \<open>mod 6\<close>) whenever the input count
  and \<open>newRotations\<close> are not negative.
\<close>

theorem h3NeighborRotations_rotation_count:
  "h3NeighborRotations T origin dir rotations = (Inr out, rotations') \<longrightarrow>
     (\<exists>current rotations2 newRotations rotations3.
        neighborLoop T (H3_GET_BASE_CELL origin) (H3_GET_RESOLUTION origin) origin
          ((rotate60ccw ^^ nat (c_rem rotations 6)) dir) (c_rem rotations 6)
          = Inr (current, rotations2, newRotations) \<and>
        pentagonAdjust T (H3_GET_BASE_CELL origin) (h3LeadingNonZeroDigit origin) current
          newRotations rotations2 = Inr (out, rotations3) \<and>
        c_rem rotations 6 \<le> rotations2 \<and> rotations2 \<le> rotations3 \<and>
        rotations' = c_rem (rotations3 + newRotations) 6 \<and>
        - 5 \<le> rotations' \<and> rotations' \<le> 5 \<and>
        (0 \<le> rotations \<and> 0 \<le> newRotations \<longrightarrow>
           0 \<le> rotations' \<and> rotations' = (rotations3 + newRotations) mod 6))"
proof
  assume res: "h3NeighborRotations T origin dir rotations = (Inr out, rotations')"
  let ?r1 = "c_rem rotations 6"
  let ?loop = "neighborLoop T (H3_GET_BASE_CELL origin) (H3_GET_RESOLUTION origin) origin
          ((rotate60ccw ^^ nat ?r1) dir) ?r1"
  from res obtain current rotations2 newRotations where
    loop: "?loop = Inr (current, rotations2, newRotations)"
    by (auto simp: h3NeighborRotations_def Let_def split: if_splits sum.splits)
  from res loop obtain rotations3 where
    adj: "pentagonAdjust T (H3_GET_BASE_CELL origin) (h3LeadingNonZeroDigit origin) current
          newRotations rotations2 = Inr (out, rotations3)"
    and r': "rotations' = c_rem (rotations3 + newRotations) 6"
    by (auto simp: h3NeighborRotations_def Let_def split: if_splits sum.splits)
  from neighborLoop_rotations[OF loop] have b1: "?r1 \<le> rotations2" by simp
  from pentagonAdjust_rotations[OF adj] have b2: "rotations2 \<le> rotations3" by simp
  have b3: "- 5 \<le> rotations' \<and> rotations' \<le> 5" unfolding r' by (rule c_rem_bounds)
  have b4: "0 \<le> rotations' \<and> rotations' = (rotations3 + newRotations) mod 6"
    if "0 \<le> rotations \<and> 0 \<le> newRotations"
  proof -
    have "0 \<le> ?r1" using that by (simp add: c_rem_nonneg)
    with b1 b2 that have "0 \<le> rotations3 + newRotations" by simp
    then show ?thesis unfolding r' by (simp add: c_rem_nonneg)
  qed
  from loop adj b1 b2 r' b3 b4 show "\<exists>current rotations2 newRotations rotations3.
        ?loop = Inr (current, rotations2, newRotations) \<and>
        pentagonAdjust T (H3_GET_BASE_CELL origin) (h3LeadingNonZeroDigit origin) current
          newRotations rotations2 = Inr (out, rotations3) \<and>
        c_rem rotations 6 \<le> rotations2 \<and> rotations2 \<le> rotations3 \<and>
        rotations' = c_rem (rotations3 + newRotations) 6 \<and>
        - 5 \<le> rotations' \<and> rotations' \<le> 5 \<and>
        (0 \<le> rotations \<and> 0 \<le> newRotations \<longrightarrow>
           0 \<le> rotations' \<and> rotations' = (rotations3 + newRotations) mod 6)"
    by (intro exI conjI impI) (assumption | simp)+
qed

theorem h3NeighborRotations_rotation_count_witness:
  "h3NeighborRotations sampleBaseCells 0x89283080ddbffff J_AXES_DIGIT 7 = (Inr 0x89283080dcbffff, 1) \<and>
   (\<exists>current rotations2 newRotations rotations3.
        neighborLoop sampleBaseCells (H3_GET_BASE_CELL 0x89283080ddbffff)
          (H3_GET_RESOLUTION 0x89283080ddbffff) 0x89283080ddbffff
          ((rotate60ccw ^^ nat (c_rem 7 6)) J_AXES_DIGIT) (c_rem 7 6)
          = Inr (current, rotations2, newRotations) \<and>
        pentagonAdjust sampleBaseCells (H3_GET_BASE_CELL 0x89283080ddbffff)
          (h3LeadingNonZeroDigit 0x89283080ddbffff) current
          newRotations rotations2 = Inr (0x89283080dcbffff, rotations3) \<and>
        c_rem 7 6 \<le> rotations2 \<and> rotations2 \<le> rotations3 \<and>
        1 = c_rem (rotations3 + newRotations) 6 \<and>
        - 5 \<le> (1::int) \<and> (1::int) \<le> 5 \<and>
        (0 \<le> (7::int) \<and> 0 \<le> newRotations \<longrightarrow>
           0 \<le> (1::int) \<and> 1 = (rotations3 + newRotations) mod 6))"
proof -
  have h: "h3NeighborRotations sampleBaseCells 0x89283080ddbffff 2 7 = (Inr 0x89283080dcbffff, 1)"
    by code_simp
  from h h3NeighborRotations_rotation_count [THEN mp, OF h] show ?thesis by (rule conjI)
qed

text \<open>
  The claim as stated fails for a negative input count: with -1 the count stored back is -1.
\<close>

theorem h3NeighborRotations_negative_rotations_counterexample:
  "h3NeighborRotations sampleBaseCells 0x89283080ddbffff J_AXES_DIGIT (- 1) = (Inr 0x89283080c37ffff, - 1)"
  by code_simp

section \<open>The neighbor walk keeps mode and resolution\<close>

lemma bit_int_small:
  assumes "0 \<le> (d::int)" "d < 2 ^ k" "bit d n"
  shows "n < k"
proof -
  have "take_bit k d = d" using assms(1,2) by (simp add: take_bit_int_eq_self)
  then have "bit (take_bit k d) n" using assms(3) by simp
  then show ?thesis by (simp add: bit_take_bit_iff)
qed

lemma set_base_cell_high:
  assumes "0 \<le> bc" "bc < 128"
  shows "drop_bit 52 (H3_SET_BASE_CELL h bc) = drop_bit 52 h"
proof (rule bit_word_eqI)
  fix n assume "n < LENGTH(64)"
  have "bc < 2 ^ 7" using assms by simp
  from bit_int_small[OF assms(1) this, of "7 + n"]
  have "\<not> bit bc (7 + n)" by auto
  then show "bit (drop_bit 52 (H3_SET_BASE_CELL h bc)) n = bit (drop_bit 52 h) n"
    unfolding H3_SET_BASE_CELL_def w127
    by (auto simp: bit_simps dest: bit_imp_le_length)
qed

lemma high45_imp_high52:
  assumes "drop_bit 45 (h :: 64 word) = drop_bit 45 h'"
  shows "drop_bit 52 h = drop_bit 52 h'"
proof -
  have "drop_bit 7 (drop_bit 45 h) = drop_bit 7 (drop_bit 45 h')" by (simp only: assms)
  then show ?thesis by (simp add: drop_bit_drop_bit)
qed

lemma resolution_high52: "H3_GET_RESOLUTION h = unat (drop_bit 52 h AND 15)"
proof -
  have "drop_bit 52 (h AND push_bit 52 15) = drop_bit 52 h AND 15"
    by (rule bit_word_eqI) (auto simp: bit_simps w15)
  then show ?thesis by (simp add: H3_GET_RESOLUTION_def)
qed

lemma mode_high52: "H3_GET_MODE h = uint (drop_bit 7 (drop_bit 52 h) AND 15)"
proof -
  have "drop_bit 59 (h AND push_bit 59 15) = drop_bit 7 (drop_bit 52 h) AND 15"
    by (rule bit_word_eqI) (auto simp: bit_simps w15)
  then show ?thesis by (simp add: H3_GET_MODE_def)
qed

lemma rotate60cw_range: "\<forall>d. 0 \<le> d \<and> d < 8 \<longrightarrow> 0 \<le> rotate60cw d \<and> rotate60cw d < 8"
  by (simp add: rotate60cw_def)

lemma h3Rotate60cw_high: "drop_bit 45 (h3Rotate60cw h) = drop_bit 45 h"
  unfolding h3Rotate60cw_def
  by (rule fold_digits_high[OF rotate60cw_range]) auto

lemma rotatePentStep_high:
  assumes "1 \<le> r"
  shows "drop_bit 45 (fst (rotatePentStep r s)) = drop_bit 45 (fst s)"
proof -
  let ?d = "rotate60ccw (H3_GET_INDEX_DIGIT (fst s) r)"
  have d: "0 \<le> ?d" "?d < 8"
    using rotate60ccw_range H3_GET_INDEX_DIGIT_range[of "fst s" r] by blast+
  show ?thesis
    by (simp add: rotatePentStep_def Let_def h3Rotate60ccw_high high_set_digit[OF d assms])
qed

lemma fold_rotatePentStep_high:
  "\<forall>r\<in>set rs. 1 \<le> r \<Longrightarrow> drop_bit 45 (fst (fold rotatePentStep rs s)) = drop_bit 45 (fst s)"
  by (induction rs arbitrary: s) (simp_all add: rotatePentStep_high)

lemma h3RotatePent60ccw_high: "drop_bit 45 (h3RotatePent60ccw h) = drop_bit 45 h"
proof -
  have "\<forall>r\<in>set [1 ..< Suc (H3_GET_RESOLUTION h)]. 1 \<le> r" by auto
  from fold_rotatePentStep_high[OF this, of "(h, False)"]
  show ?thesis by (simp only: h3RotatePent60ccw_def fst_conv)
qed

lemma funpow_high:
  assumes "\<And>h. drop_bit 45 (f h) = drop_bit 45 (h :: 64 word)"
  shows "drop_bit 45 ((f ^^ n) h) = drop_bit 45 h"
  by (induction n) (simp_all add: assms)

lemma rotate60ccw_funpow_range:
  "0 \<le> d \<Longrightarrow> d < 7 \<Longrightarrow> 0 \<le> (rotate60ccw ^^ n) d \<and> (rotate60ccw ^^ n) d < 7"
proof (induction n)
  case 0
  then show ?case by simp
next
  case (Suc n)
  then have "0 \<le> (rotate60ccw ^^ n) d" "(rotate60ccw ^^ n) d < 7" by simp_all
  then show ?case
    by (cases "(rotate60ccw ^^ n) d" rule: digit_cases) (simp_all add: rotate60ccw_values)
qed

lemma neighborLoop_high52:
  assumes T: "\<forall>bc dir. 0 \<le> bc \<and> bc < 122 \<and> 0 \<le> dir \<and> dir < 7 \<longrightarrow>
      0 \<le> baseCellNeighbors T bc dir \<and> baseCellNeighbors T bc dir \<le> 127"
    and obc: "0 \<le> obc" "obc < 122"
  shows "0 \<le> dir \<Longrightarrow> dir < 7 \<Longrightarrow> neighborLoop T obc lvl cur dir rots = Inr (cur', rots', nr)
     \<Longrightarrow> drop_bit 52 cur' = drop_bit 52 cur"
proof (induction lvl arbitrary: cur dir)
  case 0
  have n1: "0 \<le> baseCellNeighbors T obc dir" "baseCellNeighbors T obc dir < 128"
    using T[rule_format, of obc dir] obc 0(1,2) by simp_all
  have n2: "0 \<le> baseCellNeighbors T obc 5" "baseCellNeighbors T obc 5 < 128"
    using T[rule_format, of obc 5] obc by simp_all
  from 0(3) show ?case
    by (auto simp: neighborLoop.simps Let_def set_base_cell_high[OF n1] set_base_cell_high[OF n2]
        high45_imp_high52[OF h3Rotate60ccw_high] split: if_splits)
next
  case (Suc r)
  let ?d = "H3_GET_INDEX_DIGIT cur (Suc r)"
  from Suc.prems(3) have valid: "?d \<noteq> 7" by (auto simp: neighborLoop.simps)
  then have d: "0 \<le> ?d" "?d < 7" using H3_GET_INDEX_DIGIT_range[of cur "Suc r"] by simp_all
  define nd where "nd = (if isResolutionClassIII (Suc r) then NEW_DIGIT_II ! nat ?d ! nat dir
      else NEW_DIGIT_III ! nat ?d ! nat dir)"
  define na where "na = (if isResolutionClassIII (Suc r) then NEW_ADJUSTMENT_II ! nat ?d ! nat dir
      else NEW_ADJUSTMENT_III ! nat ?d ! nat dir)"
  have nd: "0 \<le> nd \<and> nd < 7" unfolding nd_def
    using table_lookup_range[OF table_entries(1) table_entries(5) d Suc.prems(1,2)]
      table_lookup_range[OF table_entries(2) table_entries(6) d Suc.prems(1,2)] by simp
  have na: "0 \<le> na \<and> na < 7" unfolding na_def
    using table_lookup_range[OF table_entries(3) table_entries(7) d Suc.prems(1,2)]
      table_lookup_range[OF table_entries(4) table_entries(8) d Suc.prems(1,2)] by simp
  have step: "neighborLoop T obc (Suc r) cur dir rots =
      (if na \<noteq> 0 then neighborLoop T obc r (H3_SET_INDEX_DIGIT cur (Suc r) nd) na rots
       else Inr (H3_SET_INDEX_DIGIT cur (Suc r) nd, rots, 0))"
    using valid by (simp add: neighborLoop.simps Let_def nd_def na_def)
  have set: "drop_bit 52 (H3_SET_INDEX_DIGIT cur (Suc r) nd) = drop_bit 52 cur"
    using nd by (intro high45_imp_high52 high_set_digit) simp_all
  show ?case
  proof (cases "na = 0")
    case True
    with Suc.prems(3) step set show ?thesis by simp
  next
    case False
    with Suc.prems(3) step have "neighborLoop T obc r (H3_SET_INDEX_DIGIT cur (Suc r) nd) na rots
        = Inr (cur', rots', nr)" by simp
    from Suc.IH[OF _ _ this] na set show ?thesis by simp
  qed
qed

lemma pentagonAdjust_high:
  "pentagonAdjust T obc old cur nr rots = Inr (out, rots') \<Longrightarrow> drop_bit 45 out = drop_bit 45 cur"
  by (auto simp: pentagonAdjust_def Let_def h3Rotate60ccw_high h3Rotate60cw_high
      funpow_high[of h3RotatePent60ccw, OF h3RotatePent60ccw_high]
      funpow_high[of h3Rotate60ccw, OF h3Rotate60ccw_high]
      split: if_splits sum.splits prod.splits)


text \<open>
  Claim C10. Every successful call to \<open>h3NeighborRotations\<close> returns a cell whose mode field
  and resolution field equal those of the origin cell: all the bits from bit 52 upwards are
  those of the origin, so only the base-cell field and the digits may differ. The base-cell
  table is a parameter here; its entries are taken to fit the 7-bit base-cell field (a base
  cell number or \<open>INVALID_BASE_CELL\<close>), since \<open>H3_SET_BASE_CELL\<close> does not mask what it stores.
\<close>

theorem h3NeighborRotations_mode_resolution:
  "(\<forall>bc dir. 0 \<le> bc \<and> bc < NUM_BASE_CELLS \<and> 0 \<le> dir \<and> dir < 7 \<longrightarrow>
       0 \<le> baseCellNeighbors T bc dir \<and> baseCellNeighbors T bc dir \<le> 127) \<and>
   h3NeighborRotations T origin dir rotations = (Inr out, rotations') \<longrightarrow>
     H3_GET_MODE out = H3_GET_MODE origin \<and>
     H3_GET_RESOLUTION out = H3_GET_RESOLUTION origin \<and>
     drop_bit 52 out = drop_bit 52 origin"
proof
  assume a: "(\<forall>bc dir. 0 \<le> bc \<and> bc < NUM_BASE_CELLS \<and> 0 \<le> dir \<and> dir < 7 \<longrightarrow>
       0 \<le> baseCellNeighbors T bc dir \<and> baseCellNeighbors T bc dir \<le> 127) \<and>
   h3NeighborRotations T origin dir rotations = (Inr out, rotations')"
  then have T: "\<forall>bc dir. 0 \<le> bc \<and> bc < 122 \<and> 0 \<le> dir \<and> dir < 7 \<longrightarrow>
       0 \<le> baseCellNeighbors T bc dir \<and> baseCellNeighbors T bc dir \<le> 127"
    and res: "h3NeighborRotations T origin dir rotations = (Inr out, rotations')" by blast+
  let ?r1 = "c_rem rotations 6"
  let ?dir1 = "(rotate60ccw ^^ nat ?r1) dir"
  from res have dir: "0 \<le> dir" "dir < 7" and obc: "0 \<le> H3_GET_BASE_CELL origin" "H3_GET_BASE_CELL origin < 122"
    by (auto simp: h3NeighborRotations_def Let_def split: if_splits)
  from res obtain current rotations2 newRotations where
    loop: "neighborLoop T (H3_GET_BASE_CELL origin) (H3_GET_RESOLUTION origin) origin ?dir1 ?r1
       = Inr (current, rotations2, newRotations)"
    by (auto simp: h3NeighborRotations_def Let_def split: if_splits sum.splits)
  from res loop obtain rotations3 where
    adj: "pentagonAdjust T (H3_GET_BASE_CELL origin) (h3LeadingNonZeroDigit origin) current
          newRotations rotations2 = Inr (out, rotations3)"
    by (auto simp: h3NeighborRotations_def Let_def split: if_splits sum.splits)
  have dir1: "0 \<le> ?dir1" "?dir1 < 7" using rotate60ccw_funpow_range[OF dir] by simp_all
  from neighborLoop_high52[OF T obc dir1 loop] high45_imp_high52[OF pentagonAdjust_high[OF adj]]
  have "drop_bit 52 out = drop_bit 52 origin" by simp
  then show "H3_GET_MODE out = H3_GET_MODE origin \<and>
     H3_GET_RESOLUTION out = H3_GET_RESOLUTION origin \<and>
     drop_bit 52 out = drop_bit 52 origin"
    by (simp add: mode_high52 resolution_high52)
qed


theorem h3NeighborRotations_mode_resolution_witness:
  "h3NeighborRotations sampleBaseCells 0x89283080ddbffff J_AXES_DIGIT 0 = (Inr 0x89283080c37ffff, 0) \<and>
   H3_GET_MODE 0x89283080c37ffff = H3_GET_MODE 0x89283080ddbffff \<and>
   H3_GET_RESOLUTION 0x89283080c37ffff = H3_GET_RESOLUTION 0x89283080ddbffff \<and>
   drop_bit 52 (0x89283080c37ffff :: H3Index) = drop_bit 52 (0x89283080ddbffff :: H3Index)"
proof -
  have T: "\<forall>bc dir. 0 \<le> bc \<and> bc < 122 \<and> 0 \<le> dir \<and> dir < 7 \<longrightarrow>
       0 \<le> baseCellNeighbors sampleBaseCells bc dir \<and> baseCellNeighbors sampleBaseCells bc dir \<le> 127"
    by (simp add: sampleBaseCells_def)
  have h: "h3NeighborRotations sampleBaseCells 0x89283080ddbffff 2 0 = (Inr 0x89283080c37ffff, 0)"
    by code_simp
  from h h3NeighborRotations_mode_resolution [THEN mp, OF conjI, OF T h] show ?thesis
    by (rule conjI)
qed

section \<open>The pentagon error\<close>

lemma firstNonZeroDigit_zero_iff:
  "firstNonZeroDigit h rs = 0 \<longleftrightarrow> (\<forall>r\<in>set rs. H3_GET_INDEX_DIGIT h r = 0)"
  by (induction rs) auto

lemma firstNonZeroDigit_append:
  "firstNonZeroDigit h (xs @ ys) =
     (if \<forall>r\<in>set xs. H3_GET_INDEX_DIGIT h r = 0 then firstNonZeroDigit h ys
      else firstNonZeroDigit h xs)"
  by (induction xs) auto

lemma h3LeadingNonZeroDigit_zero_iff:
  "h3LeadingNonZeroDigit h = 0 \<longleftrightarrow>
     (\<forall>r. 1 \<le> r \<and> r \<le> H3_GET_RESOLUTION h \<longrightarrow> H3_GET_INDEX_DIGIT h r = 0)"
  unfolding h3LeadingNonZeroDigit_def firstNonZeroDigit_zero_iff by auto

lemma base_cell_set_digit:
  assumes "0 \<le> d" "d < 8" "1 \<le> r"
  shows "H3_GET_BASE_CELL (H3_SET_INDEX_DIGIT h r d) = H3_GET_BASE_CELL h"
  by (simp add: base_cell_high high_set_digit[OF assms])

lemma resolution_set_digit:
  assumes "0 \<le> d" "d < 8" "1 \<le> r"
  shows "H3_GET_RESOLUTION (H3_SET_INDEX_DIGIT h r d) = H3_GET_RESOLUTION h"
  by (simp add: resolution_high high_set_digit[OF assms])

lemma h3LeadingNonZeroDigit_set_finest:
  assumes res: "H3_GET_RESOLUTION h = Suc r"
    and zero: "\<forall>k. 1 \<le> k \<and> k \<le> r \<longrightarrow> H3_GET_INDEX_DIGIT h k = 0"
    and d: "0 \<le> d" "d < 8"
  shows "h3LeadingNonZeroDigit (H3_SET_INDEX_DIGIT h (Suc r) d) = d"
proof -
  let ?h = "H3_SET_INDEX_DIGIT h (Suc r) d"
  have r15: "Suc r \<le> 15" using resolution_le[of h] res by simp
  have res': "H3_GET_RESOLUTION ?h = Suc r" using resolution_set_digit[OF d, of "Suc r" h] res by simp
  have low: "\<forall>k\<in>set [1 ..< Suc r]. H3_GET_INDEX_DIGIT ?h k = 0"
  proof
    fix k assume "k \<in> set [1 ..< Suc r]"
    then have k: "1 \<le> k" "k \<le> r" by auto
    then have "H3_GET_INDEX_DIGIT ?h k = H3_GET_INDEX_DIGIT h k"
      using get_set_digit[OF d, of "Suc r" k h] r15 by simp
    with zero k show "H3_GET_INDEX_DIGIT ?h k = 0" by simp
  qed
  have top: "H3_GET_INDEX_DIGIT ?h (Suc r) = d"
    using get_set_digit[OF d, of "Suc r" "Suc r" h] r15 by simp
  have "[1 ..< Suc (Suc r)] = [1 ..< Suc r] @ [Suc r]" by simp
  then have "h3LeadingNonZeroDigit ?h = firstNonZeroDigit ?h ([1 ..< Suc r] @ [Suc r])"
    by (simp only: h3LeadingNonZeroDigit_def res')
  also have "\<dots> = firstNonZeroDigit ?h [Suc r]"
    unfolding firstNonZeroDigit_append using low by (rule if_P)
  also have "\<dots> = d" using top by simp
  finally show ?thesis .
qed

lemma neighborLoop_from_center:
  assumes "H3_GET_INDEX_DIGIT cur (Suc r) = 0" "0 \<le> dir" "dir < 7"
  shows "neighborLoop T obc (Suc r) cur dir rots = Inr (H3_SET_INDEX_DIGIT cur (Suc r) dir, rots, 0)"
  using assms(1) tables_center_digit[OF assms(2,3)]
  by (simp add: neighborLoop.simps Let_def)

lemma neighborLoop_error: "neighborLoop T obc lvl cur dir rots = Inl e \<Longrightarrow> e = E_CELL_INVALID"
proof (induction lvl arbitrary: cur dir)
  case 0
  then show ?case by (auto simp: neighborLoop.simps Let_def split: if_splits)
next
  case (Suc r)
  from Suc.prems show ?case
    by (auto simp: neighborLoop.simps Let_def split: if_splits dest: Suc.IH)
qed

lemma pentagonAdjust_E_PENTAGON:
  "pentagonAdjust T obc old cur nr rots = Inl E_PENTAGON \<longleftrightarrow>
     isBaseCellPentagon T (H3_GET_BASE_CELL cur) \<and> h3LeadingNonZeroDigit cur = 1 \<and>
     obc = H3_GET_BASE_CELL cur \<and> old = 0"
  by (auto simp: pentagonAdjust_def Let_def split: if_splits sum.splits prod.splits)

lemma h3NeighborRotations_pentagon_center:
  assumes dir: "0 \<le> dir" "dir < 7" and bc: "H3_GET_BASE_CELL origin < 122"
    and pent: "isBaseCellPentagon T (H3_GET_BASE_CELL origin)"
    and res: "1 \<le> H3_GET_RESOLUTION origin"
    and zero: "\<forall>r. 1 \<le> r \<and> r \<le> H3_GET_RESOLUTION origin \<longrightarrow> H3_GET_INDEX_DIGIT origin r = 0"
    and k: "(rotate60ccw ^^ nat (c_rem rotations 6)) dir = 1"
  shows "h3NeighborRotations T origin dir rotations = (Inl E_PENTAGON, c_rem rotations 6)"
proof -
  obtain r where r: "H3_GET_RESOLUTION origin = Suc r"
    using res by (cases "H3_GET_RESOLUTION origin") auto
  have bc0: "0 \<le> H3_GET_BASE_CELL origin" by (simp add: H3_GET_BASE_CELL_def)
  let ?cur = "H3_SET_INDEX_DIGIT origin (Suc r) 1"
  have top: "H3_GET_INDEX_DIGIT origin (Suc r) = 0" using zero r by simp
  have loop: "neighborLoop T (H3_GET_BASE_CELL origin) (H3_GET_RESOLUTION origin) origin 1
      (c_rem rotations 6) = Inr (?cur, c_rem rotations 6, 0)"
    unfolding r by (rule neighborLoop_from_center[OF top]) simp_all
  have lead: "h3LeadingNonZeroDigit ?cur = 1"
    using zero r by (intro h3LeadingNonZeroDigit_set_finest) simp_all
  have bcc: "H3_GET_BASE_CELL ?cur = H3_GET_BASE_CELL origin"
    by (rule base_cell_set_digit) simp_all
  have old: "h3LeadingNonZeroDigit origin = 0"
    using zero by (simp add: h3LeadingNonZeroDigit_zero_iff)
  have adj: "pentagonAdjust T (H3_GET_BASE_CELL origin) (h3LeadingNonZeroDigit origin) ?cur 0
      (c_rem rotations 6) = Inl E_PENTAGON"
    unfolding pentagonAdjust_E_PENTAGON using pent lead bcc old by simp
  show ?thesis
    using dir bc bc0
    by (simp add: h3NeighborRotations_def Let_def k loop adj)
qed

lemma h3NeighborRotations_pentagon_only:
  assumes T: "\<forall>bc dir. 0 \<le> bc \<and> bc < 122 \<and> 0 \<le> dir \<and> dir < 7 \<longrightarrow>
      0 \<le> baseCellNeighbors T bc dir \<and> baseCellNeighbors T bc dir \<le> 127"
    and err: "fst (h3NeighborRotations T origin dir rotations) = Inl E_PENTAGON"
  shows "0 \<le> dir \<and> dir < 7 \<and> H3_GET_BASE_CELL origin < 122 \<and>
     isBaseCellPentagon T (H3_GET_BASE_CELL origin) \<and> 1 \<le> H3_GET_RESOLUTION origin \<and>
     (\<forall>r. 1 \<le> r \<and> r \<le> H3_GET_RESOLUTION origin \<longrightarrow> H3_GET_INDEX_DIGIT origin r = 0) \<and>
     (rotate60ccw ^^ nat (c_rem rotations 6)) dir = 1"
proof -
  let ?r1 = "c_rem rotations 6"
  let ?dir1 = "(rotate60ccw ^^ nat ?r1) dir"
  let ?obc = "H3_GET_BASE_CELL origin"
  from err have dir: "0 \<le> dir" "dir < 7" and obc: "0 \<le> ?obc" "?obc < 122"
    by (auto simp: h3NeighborRotations_def Let_def split: if_splits)
  have dir1: "0 \<le> ?dir1" "?dir1 < 7" using rotate60ccw_funpow_range[OF dir] by simp_all
  have noloop: "neighborLoop T ?obc (H3_GET_RESOLUTION origin) origin ?dir1 ?r1 \<noteq> Inl E_PENTAGON"
    using neighborLoop_error by fastforce
  with err dir obc obtain current rotations2 newRotations where
    loop: "neighborLoop T ?obc (H3_GET_RESOLUTION origin) origin ?dir1 ?r1
       = Inr (current, rotations2, newRotations)"
    and adj: "pentagonAdjust T ?obc (h3LeadingNonZeroDigit origin) current newRotations rotations2
       = Inl E_PENTAGON"
    by (auto simp: h3NeighborRotations_def Let_def split: if_splits sum.splits)
  from adj have pent: "isBaseCellPentagon T (H3_GET_BASE_CELL current)"
    and lead: "h3LeadingNonZeroDigit current = 1" and same: "?obc = H3_GET_BASE_CELL current"
    and old: "h3LeadingNonZeroDigit origin = 0"
    by (simp_all add: pentagonAdjust_E_PENTAGON)
  from old have zero: "\<forall>r. 1 \<le> r \<and> r \<le> H3_GET_RESOLUTION origin \<longrightarrow> H3_GET_INDEX_DIGIT origin r = 0"
    by (simp add: h3LeadingNonZeroDigit_zero_iff)
  have res: "1 \<le> H3_GET_RESOLUTION origin"
  proof (rule ccontr)
    assume "\<not> 1 \<le> H3_GET_RESOLUTION origin"
    then have r0: "H3_GET_RESOLUTION origin = 0" by simp
    from neighborLoop_high52[OF T obc dir1 loop]
    have "H3_GET_RESOLUTION current = H3_GET_RESOLUTION origin" by (simp add: resolution_high52)
    with r0 have "h3LeadingNonZeroDigit current = 0" by (simp add: h3LeadingNonZeroDigit_def)
    with lead show False by simp
  qed
  then obtain r where r: "H3_GET_RESOLUTION origin = Suc r"
    by (cases "H3_GET_RESOLUTION origin") auto
  have top: "H3_GET_INDEX_DIGIT origin (Suc r) = 0" using zero r by simp
  have "neighborLoop T ?obc (H3_GET_RESOLUTION origin) origin ?dir1 ?r1 =
      Inr (H3_SET_INDEX_DIGIT origin (Suc r) ?dir1, ?r1, 0)"
    unfolding r by (rule neighborLoop_from_center[OF top dir1])
  from loop[symmetric] this
  have "(Inr (current, rotations2, newRotations) :: H3Error + (H3Index \<times> int \<times> int)) =
      Inr (H3_SET_INDEX_DIGIT origin (Suc r) ?dir1, ?r1, 0)" by (rule trans)
  then have cur: "current = H3_SET_INDEX_DIGIT origin (Suc r) ?dir1"
    by (auto simp only: sum.inject prod.inject)
  have "h3LeadingNonZeroDigit current = ?dir1"
    unfolding cur using zero r dir1 by (intro h3LeadingNonZeroDigit_set_finest) simp_all
  with lead have k: "?dir1 = 1" by simp
  have "H3_GET_BASE_CELL current = ?obc"
    unfolding cur using dir1 by (intro base_cell_set_digit) simp_all
  with pent have "isBaseCellPentagon T ?obc" by simp
  with dir obc res zero k show ?thesis by blast
qed

text \<open>
  Claim C2, as amended. On the center cell of a pentagon base cell (below 122) of resolution
  1 or more, all digits zero up to its resolution, \<open>h3NeighborRotations\<close> returns
  \<open>E_PENTAGON\<close> and writes no cell whenever the direction, after the rotations of the
  reduced rotation count have been applied to it, is K: so for direction K with zero
  rotations, and also for instance for direction JK with one rotation. These are the only
  inputs with that error (for a base-cell table whose entries fit the 7-bit field); in
  particular a resolution 0 pentagon cell never yields it, the step there being rerouted
  to the IK neighbor.
\<close>

theorem h3NeighborRotations_pentagon_error:
  "(0 \<le> dir \<and> dir < 7 \<and> H3_GET_BASE_CELL origin < NUM_BASE_CELLS \<and>
    isBaseCellPentagon T (H3_GET_BASE_CELL origin) \<and> 1 \<le> H3_GET_RESOLUTION origin \<and>
    (\<forall>r. 1 \<le> r \<and> r \<le> H3_GET_RESOLUTION origin \<longrightarrow> H3_GET_INDEX_DIGIT origin r = CENTER_DIGIT) \<and>
    (rotate60ccw ^^ nat (c_rem rotations 6)) dir = K_AXES_DIGIT \<longrightarrow>
      h3NeighborRotations T origin dir rotations = (Inl E_PENTAGON, c_rem rotations 6)) \<and>
   ((\<forall>bc d. 0 \<le> bc \<and> bc < NUM_BASE_CELLS \<and> 0 \<le> d \<and> d < 7 \<longrightarrow>
        0 \<le> baseCellNeighbors T bc d \<and> baseCellNeighbors T bc d \<le> 127) \<and>
    fst (h3NeighborRotations T origin dir rotations) = Inl E_PENTAGON \<longrightarrow>
      0 \<le> dir \<and> dir < 7 \<and> H3_GET_BASE_CELL origin < NUM_BASE_CELLS \<and>
      isBaseCellPentagon T (H3_GET_BASE_CELL origin) \<and> 1 \<le> H3_GET_RESOLUTION origin \<and>
      (\<forall>r. 1 \<le> r \<and> r \<le> H3_GET_RESOLUTION origin \<longrightarrow> H3_GET_INDEX_DIGIT origin r = CENTER_DIGIT) \<and>
      (rotate60ccw ^^ nat (c_rem rotations 6)) dir = K_AXES_DIGIT)"
proof (intro conjI impI)
  assume "0 \<le> dir \<and> dir < 7 \<and> H3_GET_BASE_CELL origin < NUM_BASE_CELLS \<and>
    isBaseCellPentagon T (H3_GET_BASE_CELL origin) \<and> 1 \<le> H3_GET_RESOLUTION origin \<and>
    (\<forall>r. 1 \<le> r \<and> r \<le> H3_GET_RESOLUTION origin \<longrightarrow> H3_GET_INDEX_DIGIT origin r = CENTER_DIGIT) \<and>
    (rotate60ccw ^^ nat (c_rem rotations 6)) dir = K_AXES_DIGIT"
  then show "h3NeighborRotations T origin dir rotations = (Inl E_PENTAGON, c_rem rotations 6)"
    by (intro h3NeighborRotations_pentagon_center) blast+
next
  assume a: "(\<forall>bc d. 0 \<le> bc \<and> bc < NUM_BASE_CELLS \<and> 0 \<le> d \<and> d < 7 \<longrightarrow>
        0 \<le> baseCellNeighbors T bc d \<and> baseCellNeighbors T bc d \<le> 127) \<and>
    fst (h3NeighborRotations T origin dir rotations) = Inl E_PENTAGON"
  note only = h3NeighborRotations_pentagon_only[OF conjunct1[OF a] conjunct2[OF a]]
  from only show "0 \<le> dir" by blast
  from only show "dir < 7" by blast
  from only show "H3_GET_BASE_CELL origin < NUM_BASE_CELLS" by blast
  from only show "isBaseCellPentagon T (H3_GET_BASE_CELL origin)" by blast
  from only show "1 \<le> H3_GET_RESOLUTION origin" by blast
  from only show "\<forall>r. 1 \<le> r \<and> r \<le> H3_GET_RESOLUTION origin \<longrightarrow> H3_GET_INDEX_DIGIT origin r = CENTER_DIGIT"
    by blast
  from only show "(rotate60ccw ^^ nat (c_rem rotations 6)) dir = K_AXES_DIGIT" by blast
qed


theorem h3NeighborRotations_pentagon_error_witness:
  "h3NeighborRotations sampleBaseCells 0x81083ffffffffff K_AXES_DIGIT 0 = (Inl E_PENTAGON, c_rem 0 6) \<and>
   isBaseCellPentagon sampleBaseCells (H3_GET_BASE_CELL 0x81083ffffffffff) \<and>
   1 \<le> H3_GET_RESOLUTION 0x81083ffffffffff \<and>
   (rotate60ccw ^^ nat (c_rem 0 6)) K_AXES_DIGIT = K_AXES_DIGIT"
proof -
  have res: "H3_GET_RESOLUTION 0x81083ffffffffff = 1" by (simp add: H3_GET_RESOLUTION_def)
  have dig: "H3_GET_INDEX_DIGIT 0x81083ffffffffff 1 = 0" by (simp add: H3_GET_INDEX_DIGIT_def)
  have zero: "\<forall>r. 1 \<le> r \<and> r \<le> H3_GET_RESOLUTION 0x81083ffffffffff \<longrightarrow>
      H3_GET_INDEX_DIGIT 0x81083ffffffffff r = 0"
    unfolding res using dig by (auto simp: le_antisym)
  have rot: "(rotate60ccw ^^ nat (c_rem 0 6)) 1 = 1" by (simp add: c_rem_def)
  have c: "0 \<le> (1::int) \<and> (1::int) < 7 \<and> H3_GET_BASE_CELL 0x81083ffffffffff < 122 \<and>
    isBaseCellPentagon sampleBaseCells (H3_GET_BASE_CELL 0x81083ffffffffff) \<and>
    1 \<le> H3_GET_RESOLUTION 0x81083ffffffffff"
    by (simp add: H3_GET_BASE_CELL_def H3_GET_RESOLUTION_def sampleBaseCells_def)
  have conds: "0 \<le> (1::int) \<and> (1::int) < 7 \<and> H3_GET_BASE_CELL 0x81083ffffffffff < 122 \<and>
    isBaseCellPentagon sampleBaseCells (H3_GET_BASE_CELL 0x81083ffffffffff) \<and>
    1 \<le> H3_GET_RESOLUTION 0x81083ffffffffff \<and>
    (\<forall>r. 1 \<le> r \<and> r \<le> H3_GET_RESOLUTION 0x81083ffffffffff \<longrightarrow>
      H3_GET_INDEX_DIGIT 0x81083ffffffffff r = 0) \<and>
    (rotate60ccw ^^ nat (c_rem 0 6)) 1 = 1"
    using c zero rot by blast
  note err = h3NeighborRotations_pentagon_error [THEN conjunct1, THEN mp, OF conds]
  have T: "\<forall>bc d. 0 \<le> bc \<and> bc < 122 \<and> 0 \<le> d \<and> d < 7 \<longrightarrow>
       0 \<le> baseCellNeighbors sampleBaseCells bc d \<and> baseCellNeighbors sampleBaseCells bc d \<le> 127"
    by (simp add: sampleBaseCells_def)
  have e: "fst (h3NeighborRotations sampleBaseCells 0x81083ffffffffff 1 0) = Inl E_PENTAGON"
    by (simp only: err fst_conv)
  note only = h3NeighborRotations_pentagon_error [THEN conjunct2, THEN mp, OF conjI, OF T e]
  from err only show ?thesis by blast
qed


text \<open>
  The claim as stated fails twice: direction JK with one rotation yields the error on the
  resolution 1 center of base cell 4, and direction K with zero rotations does not yield it
  on the resolution 0 cell of base cell 4.
\<close>

theorem h3NeighborRotations_pentagon_counterexample:
  "h3NeighborRotations sampleBaseCells 0x81083ffffffffff JK_AXES_DIGIT 1 = (Inl E_PENTAGON, 1) \<and>
   fst (h3NeighborRotations sampleBaseCells 0x8009fffffffffff K_AXES_DIGIT 0) \<noteq> Inl E_PENTAGON"
  by code_simp

section \<open>The found hash set: no cell is appended twice\<close>

declare probe.simps [simp del]

lemma hashLoc_range:
  assumes "0 < n" "n < 2 ^ 63"
  shows "0 \<le> hashLoc x n \<and> hashLoc x n < n"
proof -
  let ?w = "word_of_int n :: 64 word"
  have "n < 2 ^ 64" using assms(2) by simp
  then have w: "uint ?w = n" using assms(1) by (simp add: uint_word_of_int)
  have u: "uint (x mod ?w) = uint x mod n" by (simp add: uint_mod_distrib w)
  have b: "0 \<le> uint x mod n" "uint x mod n < n" using assms(1) by simp_all
  then have "signed_take_bit 63 (uint x mod n) = uint x mod n"
    using assms(2) by (intro signed_take_bit_int_eq_self) simp_all
  then have "hashLoc x n = uint x mod n"
    by (simp add: hashLoc_def sint_uint u)
  with b show ?thesis by simp
qed

lemma c_rem_next:
  assumes "0 < n" "0 \<le> loc"
  shows "c_rem (loc + 1) n = (loc + 1) mod n"
  using assms by (simp add: c_rem_def sgn_if)

lemma probe_stops:
  "0 < n \<Longrightarrow> 0 \<le> loc \<Longrightarrow> loc < n \<Longrightarrow> probe fnd n x loc lc = Inr l \<Longrightarrow>
     \<exists>k. l = (loc + int k) mod n \<and>
         (\<forall>j<k. fnd ((loc + int j) mod n) \<noteq> 0 \<and> fnd ((loc + int j) mod n) \<noteq> x) \<and>
         (fnd l = 0 \<or> fnd l = x)"
proof (induction fnd n x loc lc rule: probe.induct)
  case (1 fnd n x loc lc)
  show ?case
  proof (cases "fnd loc \<noteq> 0 \<and> \<not> lc > n \<and> fnd loc \<noteq> x")
    case False
    with "1.prems" have "l = loc" "fnd l = 0 \<or> fnd l = x"
      by (auto simp: probe.simps[of fnd n x loc lc] split: if_splits)
    with "1.prems" show ?thesis by (intro exI[of _ 0]) simp
  next
    case True
    let ?loc' = "c_rem (loc + 1) n"
    have loc': "?loc' = (loc + 1) mod n"
      using "1.prems"(1,2) by (rule c_rem_next)
    have range: "0 \<le> ?loc'" "?loc' < n" using "1.prems"(1) by (simp_all add: loc')
    from True "1.prems"(4) have rec: "probe fnd n x ?loc' (lc + 1) = Inr l"
      by (simp add: probe.simps[of fnd n x loc lc])
    from True have c: "fnd loc \<noteq> 0" "\<not> n < lc" "fnd loc \<noteq> x" by simp_all
    from "1.IH"[OF c "1.prems"(1) range rec] obtain k where
      k: "l = (?loc' + int k) mod n"
         "\<forall>j<k. fnd ((?loc' + int j) mod n) \<noteq> 0 \<and> fnd ((?loc' + int j) mod n) \<noteq> x"
         "fnd l = 0 \<or> fnd l = x"
      by blast
    have shift: "(?loc' + int j) mod n = (loc + int (Suc j)) mod n" for j
    proof -
      have "(?loc' + int j) mod n = ((loc + 1) mod n + int j) mod n" by (simp only: loc')
      also have "\<dots> = (loc + 1 + int j) mod n" by (rule mod_add_left_eq)
      finally show ?thesis by (simp add: add.assoc)
    qed
    have here: "(loc + int 0) mod n = loc" using "1.prems"(2,3) by simp
    have "\<forall>j<Suc k. fnd ((loc + int j) mod n) \<noteq> 0 \<and> fnd ((loc + int j) mod n) \<noteq> x"
    proof (intro allI impI)
      fix j assume "j < Suc k"
      show "fnd ((loc + int j) mod n) \<noteq> 0 \<and> fnd ((loc + int j) mod n) \<noteq> x"
      proof (cases j)
        case 0
        with here c show ?thesis by simp
      next
        case (Suc j')
        with \<open>j < Suc k\<close> have "j' < k" by simp
        with k(2) have "fnd ((?loc' + int j') mod n) \<noteq> 0 \<and> fnd ((?loc' + int j') mod n) \<noteq> x"
          by blast
        then show ?thesis unfolding shift Suc .
      qed
    qed
    moreover have "l = (loc + int (Suc k)) mod n" using k(1) by (simp only: shift)
    ultimately show ?thesis using k(3) by blast
  qed
qed

lemma probe_stops_slot:
  assumes "0 < n" "n < 2 ^ 63" "probe fnd n x (hashLoc x n) 0 = Inr l"
  shows "\<exists>k. l = probeSlot n x k \<and>
         (\<forall>j<k. fnd (probeSlot n x j) \<noteq> 0 \<and> fnd (probeSlot n x j) \<noteq> x) \<and>
         (fnd l = 0 \<or> fnd l = x)"
  using probe_stops[OF assms(1) _ _ assms(3)] hashLoc_range[OF assms(1,2), of x]
  unfolding probeSlot_def by simp

lemma not_present_at_empty:
  assumes "fnd (probeSlot n x k) = 0"
    and "\<forall>j<k. fnd (probeSlot n x j) \<noteq> 0 \<and> fnd (probeSlot n x j) \<noteq> x"
  shows "\<not> present fnd n x"
proof
  assume "present fnd n x"
  then obtain k' where x: "x \<noteq> 0" and k': "fnd (probeSlot n x k') = x"
    "\<forall>j<k'. fnd (probeSlot n x j) \<noteq> 0"
    unfolding present_def by blast
  consider "k' < k" | "k' = k" | "k < k'" by arith
  then show False
  proof cases
    case 1
    with assms(2) k'(1) show False by blast
  next
    case 2
    with assms(1) k'(1) x show False by simp
  next
    case 3
    with k'(2) assms(1) show False by blast
  qed
qed

lemma present_after_store:
  assumes x: "x \<noteq> 0" and "\<forall>j<k. fnd (probeSlot n x j) \<noteq> 0"
  shows "present (fnd(probeSlot n x k := x)) n x"
  unfolding present_def using assms by (intro conjI exI[of _ k]) auto

lemma present_preserved:
  assumes "present fnd n y" "fnd l = 0"
  shows "present (fnd(l := x)) n y"
proof -
  from assms(1) obtain k where y: "y \<noteq> 0" and k: "fnd (probeSlot n y k) = y"
    "\<forall>j<k. fnd (probeSlot n y j) \<noteq> 0"
    unfolding present_def by blast
  have "probeSlot n y k \<noteq> l" using k(1) y assms(2) by auto
  moreover have "\<forall>j<k. probeSlot n y j \<noteq> l" using k(2) assms(2) by auto
  ultimately show ?thesis unfolding present_def using y k by (intro conjI exI[of _ k]) auto
qed

lemma appended_append:
  assumes "numSearchHexes b \<le> numSearchHexes b1" "numSearchHexes b1 \<le> numSearchHexes b2"
    and "\<forall>i. i < numSearchHexes b1 \<longrightarrow> search b2 i = search b1 i"
  shows "appended b b2 = appended b b1 @ appended b1 b2"
proof -
  let ?n0 = "numSearchHexes b" and ?n1 = "numSearchHexes b1" and ?n2 = "numSearchHexes b2"
  have split: "[?n0 .. ?n2 - 1] = [?n0 .. ?n1 - 1] @ [?n1 .. ?n2 - 1]"
  proof (cases "?n1 = ?n2")
    case True
    then show ?thesis by simp
  next
    case False
    with assms(2) have "?n1 \<le> ?n2 - 1" by simp
    from upto_split1[OF assms(1) this] show ?thesis .
  qed
  have "map (search b2) [?n0 .. ?n1 - 1] = map (search b1) [?n0 .. ?n1 - 1]"
    using assms(3) by (intro map_cong) auto
  then show ?thesis by (simp add: appended_def split)
qed

lemma traced_refl: "traced n b b"
  by (simp add: traced_def appended_def)

lemma traced_trans:
  assumes "traced n b b1" "traced n b1 b2"
  shows "traced n b b2"
proof -
  from assms have le: "numSearchHexes b \<le> numSearchHexes b1" "numSearchHexes b1 \<le> numSearchHexes b2"
    and s1: "\<forall>i. i < numSearchHexes b \<longrightarrow> search b1 i = search b i"
    and s2: "\<forall>i. i < numSearchHexes b1 \<longrightarrow> search b2 i = search b1 i"
    and d1: "distinct (appended b b1)" and d2: "distinct (appended b1 b2)"
    and z1: "0 \<notin> set (appended b b1)" and z2: "0 \<notin> set (appended b1 b2)"
    and n1: "\<forall>x\<in>set (appended b b1). \<not> present (found b) n x"
    and n2: "\<forall>x\<in>set (appended b1 b2). \<not> present (found b1) n x"
    and p1: "\<forall>x. present (found b) n x \<or> x \<in> set (appended b b1) \<longrightarrow> present (found b1) n x"
    and p2: "\<forall>x. present (found b1) n x \<or> x \<in> set (appended b1 b2) \<longrightarrow> present (found b2) n x"
    unfolding traced_def by blast+
  have app: "appended b b2 = appended b b1 @ appended b1 b2"
    by (rule appended_append[OF le s2])
  have disj: "set (appended b b1) \<inter> set (appended b1 b2) = {}"
    using p1 n2 by blast
  show ?thesis unfolding traced_def
  proof (intro conjI)
    show "numSearchHexes b \<le> numSearchHexes b2" using le by simp
    show "\<forall>i. i < numSearchHexes b \<longrightarrow> search b2 i = search b i"
      using s1 s2 le by auto
    show "distinct (appended b b2)" using d1 d2 disj by (simp add: app)
    show "0 \<notin> set (appended b b2)" using z1 z2 by (simp add: app)
    show "\<forall>x\<in>set (appended b b2). \<not> present (found b) n x"
      using n1 n2 p1 by (auto simp: app)
    show "\<forall>x. present (found b) n x \<or> x \<in> set (appended b b2) \<longrightarrow> present (found b2) n x"
      using p1 p2 by (auto simp: app)
  qed
qed

lemma traced_store:
  assumes n: "0 < n" "n < 2 ^ 63" and st: "storeHex n x b = Inr b'"
  shows "traced n b b'"
proof -
  from st obtain l where pr: "probe (found b) n x (hashLoc x n) 0 = Inr l"
    by (auto simp: storeHex_def split: sum.splits)
  from probe_stops_slot[OF n pr] obtain k where
    k: "l = probeSlot n x k"
       "\<forall>j<k. found b (probeSlot n x j) \<noteq> 0 \<and> found b (probeSlot n x j) \<noteq> x"
       "found b l = 0 \<or> found b l = x"
    by blast
  show ?thesis
  proof (cases "found b l = x")
    case True
    with st pr have "b' = b" by (simp add: storeHex_def)
    then show ?thesis by (simp add: traced_refl)
  next
    case False
    with k(3) have empty: "found b l = 0" and x: "x \<noteq> 0" by auto
    from st pr False have b': "b' = b\<lparr> found := (found b)(l := x),
        search := (search b)(numSearchHexes b := x), numSearchHexes := numSearchHexes b + 1 \<rparr>"
      by (simp add: storeHex_def)
    have app: "appended b b' = [x]" by (simp add: appended_def b')
    have notp: "\<not> present (found b) n x"
      using empty k(1,2) by (intro not_present_at_empty[of _ _ _ k]) simp_all
    have px: "present (found b') n x"
      unfolding b' using present_after_store[OF x, of k "found b" n] k(1,2) by simp
    have pres: "present (found b') n y" if "present (found b) n y" for y
      unfolding b' using present_preserved[OF that empty, of x] by simp
    show ?thesis unfolding traced_def
    proof (intro conjI)
      show "numSearchHexes b \<le> numSearchHexes b'" by (simp add: b')
      show "\<forall>i. i < numSearchHexes b \<longrightarrow> search b' i = search b i" by (simp add: b')
      show "distinct (appended b b')" by (simp add: app)
      show "0 \<notin> set (appended b b')" using x by (simp add: app)
      show "\<forall>x\<in>set (appended b b'). \<not> present (found b) n x" using notp by (simp add: app)
      show "\<forall>y. present (found b) n y \<or> y \<in> set (appended b b') \<longrightarrow> present (found b') n y"
        using px pres by (auto simp: app)
    qed
  qed
qed

lemma sampleLoop_traced:
  assumes n: "0 < n" "n < 2 ^ 63"
  shows "sampleLoop G n res origin destination est js b = (None, b') \<Longrightarrow> traced n b b'"
proof (induction js arbitrary: b)
  case Nil
  then show ?case by (simp add: traced_refl)
next
  case (Cons j js)
  from Cons.prems obtain x b1 where
    x: "latLngToCell G (interpolate G origin destination est j) res = Inr x"
    and st: "storeHex n x b = Inr b1"
    and rest: "sampleLoop G n res origin destination est js b1 = (None, b')"
    by (auto split: sum.splits)
  from traced_store[OF n st] Cons.IH[OF rest] show ?case by (rule traced_trans)
qed

lemma edgeLoop_traced:
  assumes n: "0 < n" "n < 2 ^ 63"
  shows "edgeLoop G verts n res is b = (None, b') \<Longrightarrow> traced n b b'"
proof (induction "is" arbitrary: b)
  case Nil
  then show ?case by (simp add: traced_refl)
next
  case (Cons i "is")
  let ?origin = "verts ! i"
  let ?destination = "if i = length verts - 1 then verts ! 0 else verts ! (i + 1)"
  from Cons.prems obtain est b1 where
    est: "lineHexEstimate G ?origin ?destination res = Inr est"
    and samples: "sampleLoop G n res ?origin ?destination est [0 .. est - 1] b = (None, b1)"
    and rest: "edgeLoop G verts n res is b1 = (None, b')"
    by (auto simp: Let_def split: sum.splits option.splits prod.splits)
  from sampleLoop_traced[OF n samples] Cons.IH[OF rest] show ?case by (rule traced_trans)
qed

lemma probeSlot_range:
  assumes "0 < n"
  shows "0 \<le> probeSlot n x k \<and> probeSlot n x k < n"
  using assms by (simp add: probeSlot_def)

lemma storeHex_cases:
  assumes n: "0 < n" "n < 2 ^ 63" and st: "storeHex n x b = Inr b'"
  obtains (skip) "b' = b" "x = 0 \<or> present (found b) n x"
  | (store) l k where "x \<noteq> 0" "\<not> present (found b) n x" "found b l = 0" "l = probeSlot n x k"
      "\<forall>j<k. found b (probeSlot n x j) \<noteq> 0"
      "b' = b\<lparr> found := (found b)(l := x),
               search := (search b)(numSearchHexes b := x),
               numSearchHexes := numSearchHexes b + 1 \<rparr>"
proof -
  from st obtain l where pr: "probe (found b) n x (hashLoc x n) 0 = Inr l"
    by (auto simp: storeHex_def split: sum.splits)
  from probe_stops_slot[OF n pr] obtain k where
    k: "l = probeSlot n x k"
       "\<forall>j<k. found b (probeSlot n x j) \<noteq> 0 \<and> found b (probeSlot n x j) \<noteq> x"
       "found b l = 0 \<or> found b l = x"
    by blast
  show thesis
  proof (cases "found b l = x")
    case True
    with st pr have same: "b' = b" by (simp add: storeHex_def)
    have "x = 0 \<or> present (found b) n x"
    proof (cases "x = 0")
      case False
      have "present (found b) n x" unfolding present_def
        using False True k(1,2) by (intro conjI exI[of _ k]) auto
      then show ?thesis ..
    qed simp
    with same show thesis by (rule skip)
  next
    case False
    with k(3) have empty: "found b l = 0" and x: "x \<noteq> 0" by auto
    from st pr False have b': "b' = b\<lparr> found := (found b)(l := x),
        search := (search b)(numSearchHexes b := x), numSearchHexes := numSearchHexes b + 1 \<rparr>"
      by (simp add: storeHex_def)
    have notp: "\<not> present (found b) n x"
      using empty k(1,2) by (intro not_present_at_empty[of _ _ _ k]) simp_all
    have path: "\<forall>j<k. found b (probeSlot n x j) \<noteq> 0" using k(2) by blast
    from x notp empty k(1) path b' show thesis by (rule store)
  qed
qed

lemma written_refl: "written n b b"
  by (simp add: written_def appended_def)

lemma covers_store:
  assumes n: "0 < n" "n < 2 ^ 63" and st: "storeHex n x b = Inr b'"
  shows "covers n [x] b b'"
  using n st
proof (cases rule: storeHex_cases)
  case skip
  then show ?thesis by (auto simp: covers_def appended_def)
next
  case (store l k)
  have app: "appended b b' = [x]" by (simp add: appended_def store(6))
  have px: "present (found b') n x"
    unfolding store(6) using present_after_store[OF store(1), of k "found b" n] store(4,5) by simp
  show ?thesis using px by (simp add: covers_def app)
qed

lemma written_store:
  assumes n: "0 < n" "n < 2 ^ 63" and st: "storeHex n x b = Inr b'"
  shows "written n b b'"
  using n st
proof (cases rule: storeHex_cases)
  case skip
  then show ?thesis by (simp add: written_refl)
next
  case (store l k)
  have app: "appended b b' = [x]" by (simp add: appended_def store(6))
  have fnd: "found b' = (found b)(l := x)" by (simp add: store(6))
  have ch: "{loc. found b' loc \<noteq> found b loc} = {l}"
    using store(1,3) by (auto simp: fnd)
  have lr: "0 \<le> l" "l < n" using probeSlot_range[OF n(1), of x k] store(4) by simp_all
  have px: "present (found b') n x"
    unfolding fnd using present_after_store[OF store(1), of k "found b" n] store(4,5) by simp
  have pres: "present (found b') n y" if "present (found b) n y" for y
    unfolding fnd using present_preserved[OF that store(3), of x] by simp
  show ?thesis unfolding written_def
  proof (intro conjI impI allI)
    fix loc assume "found b' loc \<noteq> found b loc"
    then have "loc = l" using ch by blast
    then show "found b loc = 0" using store(3) by simp
    from \<open>loc = l\<close> show "found b' loc \<in> set (appended b b')" by (simp add: app fnd)
  next
    show "finite {loc. found b' loc \<noteq> found b loc}" by (simp add: ch)
    have "card {loc. found b' loc \<noteq> found b loc} = 1" by (simp only: ch) simp
    then show "int (card {loc. found b' loc \<noteq> found b loc}) = numSearchHexes b' - numSearchHexes b"
      by (simp add: store(6))
  next
    assume hs: "hashSet n (found b)"
    show "hashSet n (found b')" unfolding hashSet_def
    proof (intro allI impI)
      fix loc assume a: "0 \<le> loc \<and> loc < n \<and> found b' loc \<noteq> 0"
      show "present (found b') n (found b' loc)"
      proof (cases "loc = l")
        case True
        then show ?thesis using px by (simp add: fnd)
      next
        case False
        with a have "found b loc \<noteq> 0" "found b' loc = found b loc" by (simp_all add: fnd)
        with hs a have "present (found b) n (found b loc)" unfolding hashSet_def by blast
        from pres[OF this] \<open>found b' loc = found b loc\<close> show ?thesis by simp
      qed
    qed
  next
    fix y assume hs: "hashSet n (found b)" and py: "present (found b') n y"
    from py obtain k' where y: "y \<noteq> 0" and k': "found b' (probeSlot n y k') = y"
      unfolding present_def by blast
    show "present (found b) n y \<or> y \<in> set (appended b b')"
    proof (cases "probeSlot n y k' = l")
      case True
      with k' have "y = x" by (simp add: fnd)
      then show ?thesis by (simp add: app)
    next
      case False
      with k' have "found b (probeSlot n y k') = y" by (simp add: fnd)
      with hs y probeSlot_range[OF n(1), of y k'] have "present (found b) n y"
        unfolding hashSet_def by metis
      then show ?thesis ..
    qed
  qed
qed

lemma covers_refl: "covers n [] b b"
  by (simp add: covers_def appended_def)

lemma covers_trans:
  assumes t: "traced n b b1" "traced n b1 b2" and c: "covers n xs b b1" "covers n ys b1 b2"
  shows "covers n (xs @ ys) b b2"
proof -
  from t have le: "numSearchHexes b \<le> numSearchHexes b1" "numSearchHexes b1 \<le> numSearchHexes b2"
    and s2: "\<forall>i. i < numSearchHexes b1 \<longrightarrow> search b2 i = search b1 i"
    and p2: "\<forall>x. present (found b1) n x \<or> x \<in> set (appended b1 b2) \<longrightarrow> present (found b2) n x"
    unfolding traced_def by blast+
  have app: "appended b b2 = appended b b1 @ appended b1 b2"
    by (rule appended_append[OF le s2])
  show ?thesis using c p2 unfolding covers_def app by auto
qed

lemma written_trans:
  assumes t: "traced n b b1" "traced n b1 b2" and w: "written n b b1" "written n b1 b2"
  shows "written n b b2"
proof -
  from t have le: "numSearchHexes b \<le> numSearchHexes b1" "numSearchHexes b1 \<le> numSearchHexes b2"
    and s2: "\<forall>i. i < numSearchHexes b1 \<longrightarrow> search b2 i = search b1 i"
    and z1: "0 \<notin> set (appended b b1)"
    unfolding traced_def by blast+
  have app: "appended b b2 = appended b b1 @ appended b1 b2"
    by (rule appended_append[OF le s2])
  let ?A = "{loc. found b1 loc \<noteq> found b loc}"
  let ?B = "{loc. found b2 loc \<noteq> found b1 loc}"
  let ?C = "{loc. found b2 loc \<noteq> found b loc}"
  from w have a: "\<forall>loc. found b1 loc \<noteq> found b loc \<longrightarrow> found b loc = 0 \<and> found b1 loc \<in> set (appended b b1)"
    and bb: "\<forall>loc. found b2 loc \<noteq> found b1 loc \<longrightarrow> found b1 loc = 0 \<and> found b2 loc \<in> set (appended b1 b2)"
    and fin: "finite ?A" "finite ?B"
    and cnt: "int (card ?A) = numSearchHexes b1 - numSearchHexes b"
      "int (card ?B) = numSearchHexes b2 - numSearchHexes b1"
    and h1: "hashSet n (found b) \<longrightarrow> hashSet n (found b1) \<and>
        (\<forall>x. present (found b1) n x \<longrightarrow> present (found b) n x \<or> x \<in> set (appended b b1))"
    and h2: "hashSet n (found b1) \<longrightarrow> hashSet n (found b2) \<and>
        (\<forall>x. present (found b2) n x \<longrightarrow> present (found b1) n x \<or> x \<in> set (appended b1 b2))"
    unfolding written_def by blast+
  have nz: "found b1 loc \<noteq> 0" if "loc \<in> ?A" for loc
  proof -
    from that a have "found b1 loc \<in> set (appended b b1)" by blast
    with z1 show ?thesis by metis
  qed
  have disj: "?A \<inter> ?B = {}" using nz bb by blast
  have un: "?C = ?A \<union> ?B"
  proof (intro set_eqI iffI)
    fix loc assume "loc \<in> ?C"
    then show "loc \<in> ?A \<union> ?B" by auto
  next
    fix loc assume "loc \<in> ?A \<union> ?B"
    then show "loc \<in> ?C"
    proof
      assume l: "loc \<in> ?A"
      with disj have "loc \<notin> ?B" by blast
      then have "found b2 loc = found b1 loc" by simp
      with l show ?thesis by simp
    next
      assume l: "loc \<in> ?B"
      with disj have "loc \<notin> ?A" by blast
      then have "found b1 loc = found b loc" by simp
      with l show ?thesis by simp
    qed
  qed
  show ?thesis unfolding written_def
  proof (intro conjI impI allI)
    fix loc assume c: "found b2 loc \<noteq> found b loc"
    then have "loc \<in> ?A \<union> ?B" using un by blast
    then show "found b loc = 0"
    proof
      assume "loc \<in> ?A" with a show ?thesis by blast
    next
      assume l: "loc \<in> ?B"
      with disj have "loc \<notin> ?A" by blast
      then have e: "found b1 loc = found b loc" by simp
      from l bb have "found b1 loc = 0" by blast
      with e show ?thesis by simp
    qed
    from \<open>loc \<in> ?A \<union> ?B\<close> show "found b2 loc \<in> set (appended b b2)"
    proof
      assume l: "loc \<in> ?A"
      with disj have "loc \<notin> ?B" by blast
      then have "found b2 loc = found b1 loc" by simp
      with l a show ?thesis by (auto simp: app)
    next
      assume "loc \<in> ?B" with bb show ?thesis by (auto simp: app)
    qed
  next
    show "finite ?C" using fin by (simp add: un)
    have "card ?C = card ?A + card ?B" unfolding un using fin disj by (rule card_Un_disjoint)
    then show "int (card ?C) = numSearchHexes b2 - numSearchHexes b" using cnt by simp
  next
    assume "hashSet n (found b)"
    with h1 h2 show "hashSet n (found b2)" by blast
  next
    fix x assume "hashSet n (found b)" "present (found b2) n x"
    with h1 h2 show "present (found b) n x \<or> x \<in> set (appended b b2)" by (auto simp: app)
  qed
qed


lemma sampleLoop_written:
  assumes n: "0 < n" "n < 2 ^ 63"
  shows "sampleLoop G n res origin destination est js b = (None, b') \<Longrightarrow>
     written n b b' \<and> covers n (edgeCells G res origin destination est js) b b'"
proof (induction js arbitrary: b)
  case Nil
  then show ?case by (simp add: written_refl covers_refl edgeCells_def)
next
  case (Cons j js)
  from Cons.prems obtain x b1 where
    x: "latLngToCell G (interpolate G origin destination est j) res = Inr x"
    and st: "storeHex n x b = Inr b1"
    and rest: "sampleLoop G n res origin destination est js b1 = (None, b')"
    by (auto split: sum.splits)
  have cells: "edgeCells G res origin destination est (j # js) =
      [x] @ edgeCells G res origin destination est js"
    by (simp add: edgeCells_def x)
  note t1 = traced_store[OF n st] and t2 = sampleLoop_traced[OF n rest]
  from Cons.IH[OF rest] have ih: "written n b1 b'"
    "covers n (edgeCells G res origin destination est js) b1 b'" by simp_all
  have "written n b b'" using t1 t2 written_store[OF n st] ih(1) by (rule written_trans)
  moreover have "covers n (edgeCells G res origin destination est (j # js)) b b'"
    unfolding cells using t1 t2 covers_store[OF n st] ih(2) by (rule covers_trans)
  ultimately show ?case ..
qed

lemma edgeLoop_written:
  assumes n: "0 < n" "n < 2 ^ 63"
  shows "edgeLoop G verts n res is b = (None, b') \<Longrightarrow>
     written n b b' \<and> covers n (sampledCells G verts res is) b b'"
proof (induction "is" arbitrary: b)
  case Nil
  then show ?case by (simp add: written_refl covers_refl sampledCells_def)
next
  case (Cons i "is")
  let ?origin = "verts ! i"
  let ?destination = "if i = length verts - 1 then verts ! 0 else verts ! (i + 1)"
  from Cons.prems obtain est b1 where
    est: "lineHexEstimate G ?origin ?destination res = Inr est"
    and samples: "sampleLoop G n res ?origin ?destination est [0 .. est - 1] b = (None, b1)"
    and rest: "edgeLoop G verts n res is b1 = (None, b')"
    by (auto simp: Let_def split: sum.splits option.splits prod.splits)
  have cells: "sampledCells G verts res (i # is) =
      edgeCells G res ?origin ?destination est [0 .. est - 1] @ sampledCells G verts res is"
    unfolding sampledCells_def by (simp only: list.map concat.simps Let_def est sum.case)
  note t1 = sampleLoop_traced[OF n samples] and t2 = edgeLoop_traced[OF n rest]
  from sampleLoop_written[OF n samples] have w1: "written n b b1"
    "covers n (edgeCells G res ?origin ?destination est [0 .. est - 1]) b b1" by simp_all
  from Cons.IH[OF rest] have ih: "written n b1 b'" "covers n (sampledCells G verts res is) b1 b'"
    by simp_all
  have "written n b b'" using t1 t2 w1(1) ih(1) by (rule written_trans)
  moreover have "covers n (sampledCells G verts res (i # is)) b b'"
    unfolding cells using t1 t2 w1(2) ih(2) by (rule covers_trans)
  ultimately show ?case ..
qed


text \<open>
  Claim C8. On every successful call to \<open>_getEdgeHexagons\<close> (with a positive
  \<open>numHexagons\<close>), the cells appended to the search block are pairwise distinct, none is the
  null index, and each is one of the cells that the run has indexed. A cell that the probing
  finds present in the found block is skipped: no appended cell was present before, every
  indexed cell is present afterwards, and what was present stays present. Every slot of the
  found block that the call has written was empty and now holds an appended cell, and
  \<open>numSearchHexes\<close> has grown by exactly the number of slots written; the search block is
  unchanged below the old counter. When the found block is a hash set on entry (a zeroed
  block is), it is one on exit, the cells present afterwards are those present before and
  the appended ones, the appended cells are exactly the indexed cells that were not present
  before, and \<open>numSearchHexes\<close> has grown by exactly the number of cells that have become
  present.
\<close>

theorem getEdgeHexagons_distinct:
  "0 < numHexagons \<and> numHexagons < 2 ^ 63 \<and>
   getEdgeHexagons G verts numHexagons res b = (None, b') \<longrightarrow>
     distinct (appended b b') \<and>
     0 \<notin> set (appended b b') \<and>
     set (appended b b') \<subseteq> set (sampledCells G verts res [0 ..< length verts]) \<and>
     (\<forall>x\<in>set (appended b b'). \<not> present (found b) numHexagons x) \<and>
     (\<forall>x\<in>set (sampledCells G verts res [0 ..< length verts]).
        x \<noteq> 0 \<longrightarrow> present (found b') numHexagons x) \<and>
     (\<forall>x. present (found b) numHexagons x \<longrightarrow> present (found b') numHexagons x) \<and>
     (\<forall>loc. found b' loc \<noteq> found b loc \<longrightarrow>
        found b loc = 0 \<and> found b' loc \<in> set (appended b b')) \<and>
     numSearchHexes b' = numSearchHexes b + int (card {loc. found b' loc \<noteq> found b loc}) \<and>
     (\<forall>i. i < numSearchHexes b \<longrightarrow> search b' i = search b i) \<and>
     (hashSet numHexagons (found b) \<longrightarrow>
        hashSet numHexagons (found b') \<and>
        (\<forall>x. present (found b') numHexagons x \<longleftrightarrow>
           present (found b) numHexagons x \<or> x \<in> set (appended b b')) \<and>
        set (appended b b') =
          {x \<in> set (sampledCells G verts res [0 ..< length verts]).
             x \<noteq> 0 \<and> \<not> present (found b) numHexagons x} \<and>
        numSearchHexes b' = numSearchHexes b +
          int (card {x. present (found b') numHexagons x \<and> \<not> present (found b) numHexagons x}))"
proof
  let ?n = numHexagons
  let ?cells = "sampledCells G verts res [0 ..< length verts]"
  let ?app = "appended b b'"
  assume a: "0 < ?n \<and> ?n < 2 ^ 63 \<and> getEdgeHexagons G verts ?n res b = (None, b')"
  then have n: "0 < ?n" "?n < 2 ^ 63"
    and run: "edgeLoop G verts ?n res [0 ..< length verts] b = (None, b')"
    by (simp_all add: getEdgeHexagons_def)
  from edgeLoop_traced[OF n run] have t: "traced ?n b b'" .
  from edgeLoop_written[OF n run] have w: "written ?n b b'" and c: "covers ?n ?cells b b'"
    by simp_all
  from t have le: "numSearchHexes b \<le> numSearchHexes b'"
    and keep: "\<forall>i. i < numSearchHexes b \<longrightarrow> search b' i = search b i"
    and dist: "distinct ?app" and nz: "0 \<notin> set ?app"
    and new: "\<forall>x\<in>set ?app. \<not> present (found b) ?n x"
    and pres: "\<forall>x. present (found b) ?n x \<or> x \<in> set ?app \<longrightarrow> present (found b') ?n x"
    unfolding traced_def by blast+
  from w have slots: "\<forall>loc. found b' loc \<noteq> found b loc \<longrightarrow>
        found b loc = 0 \<and> found b' loc \<in> set ?app"
    and cnt: "int (card {loc. found b' loc \<noteq> found b loc}) = numSearchHexes b' - numSearchHexes b"
    and hs: "hashSet ?n (found b) \<longrightarrow> hashSet ?n (found b') \<and>
        (\<forall>x. present (found b') ?n x \<longrightarrow> present (found b) ?n x \<or> x \<in> set ?app)"
    unfolding written_def by blast+
  from c have sub: "set ?app \<subseteq> set ?cells"
    and all: "\<forall>x\<in>set ?cells. x \<noteq> 0 \<longrightarrow> present (found b') ?n x"
    unfolding covers_def by blast+
  have len: "int (length ?app) = numSearchHexes b' - numSearchHexes b"
    using le by (simp add: appended_def)
  have cond: "hashSet ?n (found b') \<and>
        (\<forall>x. present (found b') ?n x \<longleftrightarrow> present (found b) ?n x \<or> x \<in> set ?app) \<and>
        set ?app = {x \<in> set ?cells. x \<noteq> 0 \<and> \<not> present (found b) ?n x} \<and>
        numSearchHexes b' = numSearchHexes b +
          int (card {x. present (found b') ?n x \<and> \<not> present (found b) ?n x})"
    if h: "hashSet ?n (found b)"
  proof -
    from hs h have h': "hashSet ?n (found b')"
      and only: "\<forall>x. present (found b') ?n x \<longrightarrow> present (found b) ?n x \<or> x \<in> set ?app"
      by blast+
    have iff: "\<forall>x. present (found b') ?n x \<longleftrightarrow> present (found b) ?n x \<or> x \<in> set ?app"
      using only pres by blast
    have eq: "set ?app = {x \<in> set ?cells. x \<noteq> 0 \<and> \<not> present (found b) ?n x}"
    proof (intro set_eqI iffI)
      fix x assume x: "x \<in> set ?app"
      with nz have "x \<noteq> 0" by metis
      with x sub new show "x \<in> {x \<in> set ?cells. x \<noteq> 0 \<and> \<not> present (found b) ?n x}" by blast
    next
      fix x assume "x \<in> {x \<in> set ?cells. x \<noteq> 0 \<and> \<not> present (found b) ?n x}"
      then have x: "x \<in> set ?cells" "x \<noteq> 0" "\<not> present (found b) ?n x" by simp_all
      with all have "present (found b') ?n x" by blast
      with only x(3) show "x \<in> set ?app" by blast
    qed
    have "{x. present (found b') ?n x \<and> \<not> present (found b) ?n x} = set ?app"
      using iff new by blast
    then have "card {x. present (found b') ?n x \<and> \<not> present (found b) ?n x} = length ?app"
      using dist by (simp add: distinct_card)
    with len have "numSearchHexes b' = numSearchHexes b +
          int (card {x. present (found b') ?n x \<and> \<not> present (found b) ?n x})" by simp
    with h' iff eq show ?thesis by blast
  qed
  have count: "numSearchHexes b' = numSearchHexes b + int (card {loc. found b' loc \<noteq> found b loc})"
    using cnt by simp
  have pres1: "\<forall>x. present (found b) ?n x \<longrightarrow> present (found b') ?n x" using pres by blast
  have cond': "hashSet ?n (found b) \<longrightarrow>
        hashSet ?n (found b') \<and>
        (\<forall>x. present (found b') ?n x \<longleftrightarrow> present (found b) ?n x \<or> x \<in> set ?app) \<and>
        set ?app = {x \<in> set ?cells. x \<noteq> 0 \<and> \<not> present (found b) ?n x} \<and>
        numSearchHexes b' = numSearchHexes b +
          int (card {x. present (found b') ?n x \<and> \<not> present (found b) ?n x})"
    using cond by (rule impI)
  show "distinct ?app \<and>
     0 \<notin> set ?app \<and>
     set ?app \<subseteq> set ?cells \<and>
     (\<forall>x\<in>set ?app. \<not> present (found b) ?n x) \<and>
     (\<forall>x\<in>set ?cells. x \<noteq> 0 \<longrightarrow> present (found b') ?n x) \<and>
     (\<forall>x. present (found b) ?n x \<longrightarrow> present (found b') ?n x) \<and>
     (\<forall>loc. found b' loc \<noteq> found b loc \<longrightarrow> found b loc = 0 \<and> found b' loc \<in> set ?app) \<and>
     numSearchHexes b' = numSearchHexes b + int (card {loc. found b' loc \<noteq> found b loc}) \<and>
     (\<forall>i. i < numSearchHexes b \<longrightarrow> search b' i = search b i) \<and>
     (hashSet ?n (found b) \<longrightarrow>
        hashSet ?n (found b') \<and>
        (\<forall>x. present (found b') ?n x \<longleftrightarrow> present (found b) ?n x \<or> x \<in> set ?app) \<and>
        set ?app = {x \<in> set ?cells. x \<noteq> 0 \<and> \<not> present (found b) ?n x} \<and>
        numSearchHexes b' = numSearchHexes b +
          int (card {x. present (found b') ?n x \<and> \<not> present (found b) ?n x}))"
    by (intro conjI; rule dist nz sub new all pres1 slots count keep cond')
qed

theorem getEdgeHexagons_distinct_witness:
  "fst (getEdgeHexagons sampleGeoFuns [0, 3] 2 9 zeroedBuffers) = None \<and>
   sampledCells sampleGeoFuns [0, 3] 9 [0 ..< length [0, 3 :: int]] = [1, 3, 1, 3, 1, 3] \<and>
   appended zeroedBuffers (snd (getEdgeHexagons sampleGeoFuns [0, 3] 2 9 zeroedBuffers)) = [1, 3] \<and>
   numSearchHexes (snd (getEdgeHexagons sampleGeoFuns [0, 3] 2 9 zeroedBuffers)) = 2 \<and>
   distinct (appended zeroedBuffers (snd (getEdgeHexagons sampleGeoFuns [0, 3] 2 9 zeroedBuffers))) \<and>
   numSearchHexes (snd (getEdgeHexagons sampleGeoFuns [0, 3] 2 9 zeroedBuffers)) =
     numSearchHexes zeroedBuffers +
     int (card {loc. found (snd (getEdgeHexagons sampleGeoFuns [0, 3] 2 9 zeroedBuffers)) loc \<noteq>
                     found zeroedBuffers loc}) \<and>
   hashSet 2 (found (snd (getEdgeHexagons sampleGeoFuns [0, 3] 2 9 zeroedBuffers))) \<and>
   numSearchHexes (snd (getEdgeHexagons sampleGeoFuns [0, 3] 2 9 zeroedBuffers)) =
     numSearchHexes zeroedBuffers +
     int (card {x. present (found (snd (getEdgeHexagons sampleGeoFuns [0, 3] 2 9 zeroedBuffers))) 2 x \<and>
                   \<not> present (found zeroedBuffers) 2 x})"
proof -
  let ?run = "getEdgeHexagons sampleGeoFuns [0, 3] 2 9 zeroedBuffers"
  have ok: "fst ?run = None" by code_simp
  have cells: "sampledCells sampleGeoFuns [0, 3] 9 [0 ..< length [0, 3 :: int]] = [1, 3, 1, 3, 1, 3]"
    by code_simp
  have app: "appended zeroedBuffers (snd ?run) = [1, 3]" by code_simp
  have num: "numSearchHexes (snd ?run) = 2" by code_simp
  have "?run = (fst ?run, snd ?run)" by (rule prod.collapse[symmetric])
  then have run: "?run = (None, snd ?run)" by (simp only: ok)
  have n: "(0::int) < 2" "(2::int) < 2 ^ 63" by simp_all
  have hyp: "(0::int) < 2 \<and> (2::int) < 2 ^ 63 \<and> ?run = (None, snd ?run)"
    using n run by (intro conjI)
  have hs: "hashSet 2 (found zeroedBuffers)" by (simp add: hashSet_def zeroedBuffers_def)
  note t = getEdgeHexagons_distinct [THEN mp, OF hyp]
  note dist = t [THEN conjunct1]
  note count = t [THEN conjunct2, THEN conjunct2, THEN conjunct2, THEN conjunct2, THEN conjunct2,
    THEN conjunct2, THEN conjunct2, THEN conjunct1]
  note c = t [THEN conjunct2, THEN conjunct2, THEN conjunct2, THEN conjunct2, THEN conjunct2,
    THEN conjunct2, THEN conjunct2, THEN conjunct2, THEN conjunct2, THEN mp, OF hs]
  note hs' = c [THEN conjunct1]
  note count' = c [THEN conjunct2, THEN conjunct2, THEN conjunct2]
  show ?thesis by (intro conjI; rule ok cells app num dist count hs' count')
qed

section \<open>Stepping and stepping back\<close>































































text \<open>
  The condition on the rotation count is needed: with the count \<open>-1\<close> the step from the
  resolution 1 cell with digit JK of base cell 4 in direction IK enters the deleted K
  subsequence, and the step back ends at the center of the pentagon.
\<close>

lemma h3NeighborRotations_negative_count_example:
  "h3NeighborRotations sampleBaseCells 0x8108fffffffffff IK_AXES_DIGIT (- 1)
     = (Inr 0x81097ffffffffff, 0) \<and>
   h3NeighborRotations sampleBaseCells 0x81097ffffffffff ((rotate60ccw ^^ 3) IK_AXES_DIGIT) 0
     = (Inr 0x81083ffffffffff, 0)"
  by code_simp

end
